theory Spec2Isabelle
  imports Complex_Main "HOL-Library.Sublist"
begin

section \<open>Colour mathematics\<close>

text \<open>
  The functions of this section embed the module-level colour functions of
  \<^verbatim>\<open>accessibility_tester.py\<close>. Python floats are idealised as real numbers: the
  source divides, adds and raises to the power 2.4 in double precision, the embedding does
  the same operations on \<^typ>\<open>real\<close>. A colour channel is the Python \<^verbatim>\<open>int\<close> that
  \<^verbatim>\<open>eval\<close> reads out of a computed style such as \<^verbatim>\<open>rgba(119, 119, 119, 1)\<close>.
\<close>

text \<open>
  \<^verbatim>\<open>
  def convert_rgb_8bit_value(single_rgb_8bit_value):
      srgb = single_rgb_8bit_value / 255
      if srgb <= 0.03928:
          return srgb / 12.92
      return ((srgb + 0.055) / 1.055) ** 2.4
  \<close>
\<close>

definition convert_rgb_8bit_value :: "int \<Rightarrow> real" where
  "convert_rgb_8bit_value single_rgb_8bit_value =
     (let srgb = real_of_int single_rgb_8bit_value / 255
      in if srgb \<le> 0.03928 then srgb / 12.92
         else ((srgb + 0.055) / 1.055) powr 2.4)"

text \<open>
  The transfer function as the specification words it: with \<open>s = channel / 255\<close>, the
  value is \<open>s / 12.92\<close> up to the split \<open>0.03928\<close> and \<open>((s + 0.055) / 1.055) ^ 2.4\<close>
  above it.
\<close>

definition linearize_spec :: "int \<Rightarrow> real" where
  "linearize_spec channel =
     (if real_of_int channel / 255 \<le> 0.03928 then (real_of_int channel / 255) / 12.92
      else (((real_of_int channel / 255) + 0.055) / 1.055) powr 2.4)"

text \<open>
  A colour as \<^verbatim>\<open>eval\<close> returns it from an \<^verbatim>\<open>rgba(...)\<close> string: a 4-tuple of red, green,
  blue and alpha.
\<close>

type_synonym rgba = "int \<times> int \<times> int \<times> real"

definition red :: "rgba \<Rightarrow> int" where "red c = fst c"
definition green :: "rgba \<Rightarrow> int" where "green c = fst (snd c)"
definition blue :: "rgba \<Rightarrow> int" where "blue c = fst (snd (snd c))"
definition alpha :: "rgba \<Rightarrow> real" where "alpha c = snd (snd (snd c))"

text \<open>
  \<^verbatim>\<open>
  luminance_text = 0.2126 * r_text + 0.7152 * g_text + 0.0722 * b_text
  \<close>
  The source computes this expression twice, inline; it is named here once.
\<close>

definition luminance :: "rgba \<Rightarrow> real" where
  "luminance c = 0.2126 * convert_rgb_8bit_value (red c)
               + 0.7152 * convert_rgb_8bit_value (green c)
               + 0.0722 * convert_rgb_8bit_value (blue c)"

definition get_contrast_ratio :: "rgba \<Rightarrow> rgba \<Rightarrow> real" where
  "get_contrast_ratio text_color background_color =
     (let luminance_text = luminance text_color;
          luminance_background = luminance background_color
      in if luminance_text > luminance_background
         then (luminance_text + 0.05) / (luminance_background + 0.05)
         else (luminance_background + 0.05) / (luminance_text + 0.05))"

text \<open>A channel in the 8-bit range.\<close>

definition channel_ok :: "int \<Rightarrow> bool" where
  "channel_ok c \<longleftrightarrow> 0 \<le> c \<and> c \<le> 255"

definition color_ok :: "rgba \<Rightarrow> bool" where
  "color_ok c \<longleftrightarrow> channel_ok (red c) \<and> channel_ok (green c) \<and> channel_ok (blue c)"


section \<open>The document tree\<close>

text \<open>
  The parsed page, as \<^verbatim>\<open>BeautifulSoup(page_source, "html.parser")\<close> builds it. A tag
  has a name, a dictionary of attributes and a list of children; the other nodes are the
  strings of the document, among them comments and doctypes (both subclasses of
  \<^verbatim>\<open>NavigableString\<close> in the library). The page itself is the tag named
  \<^verbatim>\<open>[document]\<close>. All the attributes the program reads (\<^verbatim>\<open>lang\<close>, \<^verbatim>\<open>alt\<close>,
  \<^verbatim>\<open>type\<close>, \<^verbatim>\<open>id\<close>, \<^verbatim>\<open>for\<close>, \<^verbatim>\<open>value\<close>, \<^verbatim>\<open>title\<close>, \<^verbatim>\<open>aria-label\<close>,
  \<^verbatim>\<open>aria-labelledby\<close>) hold one string.
\<close>

datatype node =
    Tag string "string \<rightharpoonup> string" "node list"
  | NavigableString string
  | Comment string
  | Doctype string

fun name :: "node \<Rightarrow> string" where
  "name (Tag n a cs) = n"
| "name _ = []"

fun attrs :: "node \<Rightarrow> (string \<rightharpoonup> string)" where
  "attrs (Tag n a cs) = a"
| "attrs _ = Map.empty"

fun children :: "node \<Rightarrow> node list" where
  "children (Tag n a cs) = cs"
| "children _ = []"

fun is_tag :: "node \<Rightarrow> bool" where
  "is_tag (Tag n a cs) = True"
| "is_tag _ = False"

fun is_comment :: "node \<Rightarrow> bool" where
  "is_comment (Comment t) = True"
| "is_comment _ = False"

fun is_doctype :: "node \<Rightarrow> bool" where
  "is_doctype (Doctype t) = True"
| "is_doctype _ = False"

text \<open>The characters of a string node; a tag has none of its own.\<close>

fun string_of :: "node \<Rightarrow> string" where
  "string_of (Tag n a cs) = []"
| "string_of (NavigableString t) = t"
| "string_of (Comment t) = t"
| "string_of (Doctype t) = t"

text \<open>
  Python tells two nodes apart by identity (\<^verbatim>\<open>s is child\<close>), which a value of
  \<^typ>\<open>node\<close> does not have. A node inside a page is therefore addressed by the list of
  child indices that leads to it from the root; the root is \<open>[]\<close>. \<open>located\<close> lists every
  node below a node with its address, in document order, which is the order of
  \<^verbatim>\<open>find_all\<close>.
\<close>

fun located :: "node \<Rightarrow> (nat list \<times> node) list"
  and located_list :: "nat \<Rightarrow> node list \<Rightarrow> (nat list \<times> node) list" where
  "located (Tag n a cs) = located_list 0 cs"
| "located (NavigableString t) = []"
| "located (Comment t) = []"
| "located (Doctype t) = []"
| "located_list i [] = []"
| "located_list i (c # cs) =
     ([i], c) # map (\<lambda>(r, d). (i # r, d)) (located c) @ located_list (Suc i) cs"

definition descendants :: "node \<Rightarrow> node list" where
  "descendants nd = map snd (located nd)"

text \<open>\<^verbatim>\<open>find_all(nm)\<close>: the tags of that name below a node.\<close>

definition find_all :: "string \<Rightarrow> node \<Rightarrow> node list" where
  "find_all nm nd = filter (\<lambda>d. is_tag d \<and> name d = nm) (descendants nd)"

text \<open>\<^verbatim>\<open>find(nm)\<close>: the first of them, or \<^verbatim>\<open>None\<close>.\<close>

definition find_first :: "string \<Rightarrow> node \<Rightarrow> node option" where
  "find_first nm nd = (case find_all nm nd of [] \<Rightarrow> None | d # _ \<Rightarrow> Some d)"

text \<open>\<^verbatim>\<open>find(id=v)\<close>: the first tag whose \<^verbatim>\<open>id\<close> attribute is \<open>v\<close>.\<close>

definition find_by_id :: "string \<Rightarrow> node \<Rightarrow> node option" where
  "find_by_id v nd = List.find (\<lambda>d. is_tag d \<and> attrs d ''id'' = Some v) (descendants nd)"

text \<open>\<^verbatim>\<open>findAll(text=True)\<close>: every string below a node, comments and doctypes included.\<close>

definition find_texts :: "node \<Rightarrow> node list" where
  "find_texts nd = filter (\<lambda>d. \<not> is_tag d) (descendants nd)"

text \<open>\<^verbatim>\<open>findChildren(nm, recursive=False)\<close>: the direct children that are tags of that name.\<close>

definition find_children :: "string \<Rightarrow> node \<Rightarrow> node list" where
  "find_children nm nd = filter (\<lambda>d. is_tag d \<and> name d = nm) (children nd)"

fun get_node :: "node \<Rightarrow> nat list \<Rightarrow> node option" where
  "get_node nd [] = Some nd"
| "get_node nd (i # r) =
     (if i < length (children nd) then get_node (children nd ! i) r else None)"

text \<open>
  \<^verbatim>\<open>text.parent\<close> on an address: the root has no parent (\<^verbatim>\<open>None\<close>).
\<close>

fun parent :: "nat list \<Rightarrow> nat list option" where
  "parent [] = None"
| "parent (i # r) = Some (butlast (i # r))"

text \<open>
  \<^verbatim>\<open>
  def xpath_soup(element):
      components = []
      child = element if element.name else element.parent
      for parent in child.parents:
          siblings = parent.find_all(child.name, recursive=False)
          components.append(
              child.name if 1 == len(siblings) else '%s[%d]' % (
                  child.name,
                  next(i for i, s in enumerate(siblings, 1) if s is child)))
          child = parent
      components.reverse()
      if not components:
          return '/html'
      return '/%s' % '/'.join(components)
  \<close>
  The path is kept as the list of its components, each a tag name with the optional
  1-based position among the siblings of the same name, instead of the string that joins
  them. The program only calls the function on tags.
\<close>

type_synonym xpath = "(string \<times> nat option) list"

fun xpath_components :: "node \<Rightarrow> nat list \<Rightarrow> xpath" where
  "xpath_components nd [] = []"
| "xpath_components nd (i # r) =
     (if i < length (children nd)
      then (let child = children nd ! i;
                siblings = find_children (name child) nd
            in (if length siblings = 1 then (name child, None)
                else (name child,
                      Some (Suc (length (filter (\<lambda>d. is_tag d \<and> name d = name child)
                                          (take i (children nd)))))))
               # xpath_components child r)
      else [])"

definition xpath_soup :: "node \<Rightarrow> nat list \<Rightarrow> xpath" where
  "xpath_soup pg r =
     (let components = xpath_components pg r
      in if components = [] then [(''html'', None)] else components)"

section \<open>The browser\<close>

text \<open>
  What the program reads from Selenium. A computed colour is the string
  \<^verbatim>\<open>rgb(r, g, b)\<close> or \<^verbatim>\<open>rgba(r, g, b, a)\<close>; the program reads it with \<^verbatim>\<open>eval\<close>, the
  embedding keeps the numbers.
\<close>

datatype css_color = Rgb int int int | Rgba int int int real

text \<open>
  \<^verbatim>\<open>
  def convert_to_rgba_value(color):
      if color[:4] != "rgba":
          rgba_tuple = eval(color[3:]) + (1,)
          color = "rgba" + str(rgba_tuple)
      return color
  \<close>
\<close>

fun convert_to_rgba_value :: "css_color \<Rightarrow> rgba" where
  "convert_to_rgba_value (Rgb r g b) = (r, g, b, 1)"
| "convert_to_rgba_value (Rgba r g b a) = (r, g, b, a)"

text \<open>The properties \<^verbatim>\<open>value_of_css_property\<close> is asked for.\<close>

record style =
  display :: string
  color :: css_color
  background_color :: css_color
  font_size :: "string option"
  font_weight :: string

text \<open>An anchor as \<^verbatim>\<open>find_elements(by="tag name", value="a")\<close> returns it.\<close>

record link =
  is_displayed :: bool
  href :: "string option"

text \<open>
  A loaded window: the address it shows, the parse of its page source, the element found
  for a path (\<^verbatim>\<open>None\<close> where Selenium raises \<^verbatim>\<open>NoSuchElementException\<close>) and its
  anchors.
\<close>

record site =
  current_url :: string
  page_source :: node
  find_element :: "xpath \<Rightarrow> style option"
  find_links :: "link list"

text \<open>
  The world outside the program: what \<^verbatim>\<open>driver.get\<close> loads for an address (\<^verbatim>\<open>None\<close>
  where the navigation fails), and the two functions of \<^verbatim>\<open>urllib.parse\<close> the program
  calls, taken as parameters.
\<close>

record env =
  get :: "string \<Rightarrow> site option"
  urljoin :: "string \<Rightarrow> string option \<Rightarrow> string"
  hostname :: "string \<Rightarrow> string option"

section \<open>The tester\<close>

datatype category =
  doc_language | alt_texts | input_labels | empty_buttons | empty_links | color_contrast

datatype error =
    AttributeError
  | NoSuchElementException
  | StaleElementReferenceException
  | WebDriverException
  | ValueError
  | TypeError
  | TooManyErrors

text \<open>
  The fields of \<^verbatim>\<open>AccessibilityTester\<close> that the audit reads or writes. The driver is
  represented by its windows, in the order of \<^verbatim>\<open>window_handles\<close>, and the index of the
  current one. \<open>audited\<close> collects the addresses of the header line that \<^verbatim>\<open>test_page\<close>
  prints for each page it tests. The counters are natural numbers: they start at zero and
  the program only ever adds one to them.
\<close>

record tester =
  url :: string
  required_degree :: real
  follow :: bool
  page :: node
  correct :: "category \<Rightarrow> nat"
  wrong :: "category \<Rightarrow> nat"
  visited_links :: "string list"
  windows :: "site list"
  current_window :: nat
  audited :: "string list"

definition blank_window :: site where
  "blank_window = \<lparr>current_url = ''about:blank'', page_source = Tag ''[document]'' Map.empty [],
     find_element = (\<lambda>p. None), find_links = []\<rparr>"

text \<open>\<^verbatim>\<open>__init__\<close>: every counter is zero and nothing is visited.\<close>

definition init :: "string \<Rightarrow> real \<Rightarrow> bool \<Rightarrow> tester" where
  "init u degree fol =
     \<lparr>url = u, required_degree = degree, follow = fol, page = Tag ''[document]'' Map.empty [],
      correct = (\<lambda>c. 0), wrong = (\<lambda>c. 0), visited_links = [], windows = [],
      current_window = 0, audited = []\<rparr>"

text \<open>\<^verbatim>\<open>start_driver\<close>: one window, navigated to the configured address.\<close>

definition start_driver :: "env \<Rightarrow> tester \<Rightarrow> error + tester" where
  "start_driver w s =
     (case get w (url s) of
        None \<Rightarrow> Inl WebDriverException
      | Some st \<Rightarrow> Inr (s\<lparr>windows := [st], current_window := 0, page := page_source st\<rparr>))"

definition driver :: "tester \<Rightarrow> site" where
  "driver s = windows s ! current_window s"

text \<open>\<^verbatim>\<open>self.correct[c] += 1\<close> and \<^verbatim>\<open>self.wrong[c] += 1\<close>.\<close>

definition add_correct :: "category \<Rightarrow> tester \<Rightarrow> tester" where
  "add_correct c s = s\<lparr>correct := (correct s)(c := correct s c + 1)\<rparr>"

definition add_wrong :: "category \<Rightarrow> tester \<Rightarrow> tester" where
  "add_wrong c s = s\<lparr>wrong := (wrong s)(c := wrong s c + 1)\<rparr>"

text \<open>
  Every branch of every check prints one line and adds one to one counter. A verdict is
  the pair of the outcome and the printed reason; \<open>record_finding\<close> is the increment.
\<close>

type_synonym finding = "bool \<times> string"

definition record_finding :: "category \<Rightarrow> finding \<Rightarrow> tester \<Rightarrow> tester" where
  "record_finding c f s = (if fst f then add_correct c s else add_wrong c s)"


section \<open>The checks on the document tree\<close>

text \<open>
  \<^verbatim>\<open>check_doc_language\<close>. \<^verbatim>\<open>self.page.find("html")\<close> is \<^verbatim>\<open>None\<close> on a page without an
  \<^verbatim>\<open>html\<close> element, and the attribute access on it raises.
\<close>

definition doc_language_verdict :: "node \<Rightarrow> finding" where
  "doc_language_verdict html =
     (let lang_attr = attrs html ''lang''
      in if lang_attr \<noteq> None \<and> lang_attr \<noteq> Some []
         then (True, ''Document language is set'')
         else if lang_attr \<noteq> None
         then (False, ''Document language is empty'')
         else (False, ''Document language is missing''))"

definition check_doc_language :: "tester \<Rightarrow> error + tester" where
  "check_doc_language s =
     (case find_first ''html'' (page s) of
        None \<Rightarrow> Inl AttributeError
      | Some html \<Rightarrow> Inr (record_finding doc_language (doc_language_verdict html) s))"

text \<open>\<^verbatim>\<open>check_alt_texts\<close>.\<close>

definition alt_text_verdict :: "node \<Rightarrow> finding" where
  "alt_text_verdict img_element =
     (let alt_text = attrs img_element ''alt''
      in if alt_text \<noteq> None \<and> alt_text \<noteq> Some []
         then (True, ''Alt text is correct'')
         else if alt_text \<noteq> None
         then (False, ''Alt text is empty'')
         else (False, ''Alt text is missing''))"

definition check_alt_texts :: "tester \<Rightarrow> tester" where
  "check_alt_texts s =
     fold (\<lambda>img_element. record_finding alt_texts (alt_text_verdict img_element))
       (find_all ''img'' (page s)) s"

text \<open>
  \<^verbatim>\<open>check_input_labels\<close>. The first condition of the loop body leaves out the inputs of
  type \<^verbatim>\<open>hidden\<close>, \<^verbatim>\<open>submit\<close>, \<^verbatim>\<open>reset\<close> and \<^verbatim>\<open>button\<close>; the chain of
  \<^verbatim>\<open>if\<close>/\<^verbatim>\<open>elif\<close>/\<^verbatim>\<open>else\<close> below it is the verdict. In its third branch the
  attribute \<^verbatim>\<open>aria-labelledby\<close> is present, so the case without it there is never taken.
\<close>

definition needs_label :: "node \<Rightarrow> bool" where
  "needs_label input_element \<longleftrightarrow>
     (attrs input_element ''type'' \<noteq> None
        \<and> attrs input_element ''type'' \<noteq> Some ''hidden''
        \<and> attrs input_element ''type'' \<noteq> Some ''submit''
        \<and> attrs input_element ''type'' \<noteq> Some ''reset''
        \<and> attrs input_element ''type'' \<noteq> Some ''button'')
     \<or> attrs input_element ''type'' = None"

text \<open>
  \<^verbatim>\<open>
  label_correct = False
  for label_element in label_elements:
      if "for" in label_element.attrs and "id" in input_element.attrs \
              and label_element['for'] == input_element['id']:
          label_correct = True
  \<close>
\<close>

definition label_correct :: "node list \<Rightarrow> node \<Rightarrow> bool" where
  "label_correct label_elements input_element =
     fold (\<lambda>label_element found.
             if attrs label_element ''for'' \<noteq> None \<and> attrs input_element ''id'' \<noteq> None
                \<and> attrs label_element ''for'' = attrs input_element ''id''
             then True else found)
       label_elements False"

definition input_label_verdict :: "node \<Rightarrow> node list \<Rightarrow> node \<Rightarrow> finding" where
  "input_label_verdict pg label_elements input_element =
     (if attrs input_element ''type'' = Some ''image''
         \<and> attrs input_element ''alt'' \<noteq> None \<and> attrs input_element ''alt'' \<noteq> Some []
      then (True, ''Input of type image labelled with alt text'')
      else if attrs input_element ''aria-label'' \<noteq> None
         \<and> attrs input_element ''aria-label'' \<noteq> Some []
      then (True, ''Input labelled with aria-label attribute'')
      else if attrs input_element ''aria-labelledby'' \<noteq> None
         \<and> attrs input_element ''aria-labelledby'' \<noteq> Some []
      then (case attrs input_element ''aria-labelledby'' of
              None \<Rightarrow> (False, ''Input not labelled at all'')
            | Some ident \<Rightarrow>
               (case find_by_id ident pg of
                  Some label_element \<Rightarrow>
                    if find_texts label_element \<noteq> []
                    then (True, ''Input labelled with aria-labelledby attribute'')
                    else (False, ''Input labelled with aria-labelledby attribute, but related label has no text'')
                | None \<Rightarrow>
                    (False, ''Input labelled with aria-labelledby attribute, but related label does not exist'')))
      else if label_correct label_elements input_element
      then (True, ''Input labelled with label element'')
      else (False, ''Input not labelled at all''))"

definition check_input_labels :: "tester \<Rightarrow> tester" where
  "check_input_labels s =
     (let input_elements = find_all ''input'' (page s);
          label_elements = find_all ''label'' (page s)
      in fold (\<lambda>input_element.
                 record_finding input_labels
                   (input_label_verdict (page s) label_elements input_element))
           (filter needs_label input_elements) s)"

text \<open>
  \<^verbatim>\<open>check_buttons\<close>. \<^verbatim>\<open>find_all("input", type=["submit", "button", "reset"])\<close> keeps the
  inputs whose \<^verbatim>\<open>type\<close> is one of the three strings.
\<close>

definition find_button_inputs :: "node \<Rightarrow> node list" where
  "find_button_inputs pg =
     filter (\<lambda>d. attrs d ''type'' = Some ''submit'' \<or> attrs d ''type'' = Some ''button''
                  \<or> attrs d ''type'' = Some ''reset'')
       (find_all ''input'' pg)"

definition button_input_verdict :: "node \<Rightarrow> finding" where
  "button_input_verdict input_element =
     (if attrs input_element ''value'' \<noteq> None \<and> attrs input_element ''value'' \<noteq> Some []
      then (True, ''Button has content'')
      else (False, ''Button is empty''))"

definition button_verdict :: "node \<Rightarrow> finding" where
  "button_verdict button_element =
     (let texts = find_texts button_element
      in if texts \<noteq> []
            \<or> (attrs button_element ''title'' \<noteq> None \<and> attrs button_element ''title'' \<noteq> Some [])
         then (True, ''Button has content'')
         else (False, ''Button is empty''))"

definition check_buttons :: "tester \<Rightarrow> tester" where
  "check_buttons s =
     (let input_elements = find_button_inputs (page s);
          button_elements = find_all ''button'' (page s);
          s1 = fold (\<lambda>input_element. record_finding empty_buttons (button_input_verdict input_element))
                 input_elements s
      in fold (\<lambda>button_element. record_finding empty_buttons (button_verdict button_element))
           button_elements s1)"

text \<open>
  \<^verbatim>\<open>check_links\<close>.
  \<^verbatim>\<open>
  all_alt_texts_set = True
  for img_element in img_elements:
      alt_text = img_element.get_attribute_list('alt')[0]
      if alt_text is None or alt_text == "":
          all_alt_texts_set = False
  \<close>
\<close>

definition all_alt_texts_set :: "node list \<Rightarrow> bool" where
  "all_alt_texts_set img_elements =
     fold (\<lambda>img_element ok.
             if attrs img_element ''alt'' = None \<or> attrs img_element ''alt'' = Some []
             then False else ok)
       img_elements True"

definition link_verdict :: "node \<Rightarrow> finding" where
  "link_verdict link_element =
     (let texts_in_link_element = find_texts link_element;
          img_elements = find_children ''img'' link_element
      in if texts_in_link_element \<noteq> []
            \<or> (img_elements \<noteq> [] \<and> all_alt_texts_set img_elements)
         then (True, ''Link has content'')
         else (False, ''Link is empty''))"

definition check_links :: "tester \<Rightarrow> tester" where
  "check_links s =
     fold (\<lambda>link_element. record_finding empty_links (link_verdict link_element))
       (find_all ''a'' (page s)) s"


section \<open>The colour contrast check\<close>

text \<open>
  \<^verbatim>\<open>
  def extract_texts(soup):
      soup2 = soup
      for invisible_element in soup2(["script", "style", "title", "noscript"]):
          invisible_element.extract()
      comments = soup2.findAll(text=lambda text:isinstance(text, Comment))
      for comment in comments:
          comment.extract()
      doctype = soup2.find(text=lambda text:isinstance(text, Doctype))
      if not doctype is None:
          doctype.extract()
      texts = []
      texts_on_page = soup2.findAll(text=True)
      for text in texts_on_page:
          if not text.strip() == "" and not text == "\n":
              texts.append(text.parent)
      return texts
  \<close>
  \<^verbatim>\<open>soup2\<close> is the very object \<^verbatim>\<open>soup\<close>, so each \<^verbatim>\<open>extract()\<close> takes the node out of the
  page of the tester. The embedding returns the page as the calls leave it, next to the
  list of parents, which are addresses in that page.
\<close>

definition invisible_element :: "node \<Rightarrow> bool" where
  "invisible_element d \<longleftrightarrow>
     is_tag d \<and> (name d = ''script'' \<or> name d = ''style'' \<or> name d = ''title''
                 \<or> name d = ''noscript'')"

text \<open>The page without the nodes that satisfy \<open>P\<close>, at any depth.\<close>

fun remove_nodes :: "(node \<Rightarrow> bool) \<Rightarrow> node \<Rightarrow> node" where
  "remove_nodes P (Tag n a cs) = Tag n a (map (remove_nodes P) (filter (\<lambda>c. \<not> P c) cs))"
| "remove_nodes P (NavigableString t) = NavigableString t"
| "remove_nodes P (Comment t) = Comment t"
| "remove_nodes P (Doctype t) = Doctype t"

text \<open>The page without the node at an address.\<close>

fun remove_at :: "node \<Rightarrow> nat list \<Rightarrow> node" where
  "remove_at nd [] = nd"
| "remove_at nd [i] = Tag (name nd) (attrs nd) (take i (children nd) @ drop (Suc i) (children nd))"
| "remove_at nd (i # j # r) =
     (if i < length (children nd)
      then Tag (name nd) (attrs nd) ((children nd)[i := remove_at (children nd ! i) (j # r)])
      else nd)"

text \<open>
  A Python \<^verbatim>\<open>str\<close> is a sequence of code points, a \<^typ>\<open>string\<close> a sequence of bytes:
  the text of a node is held as its UTF-8 encoding, and \<open>code_points\<close> reads the code
  points back. \<^verbatim>\<open>str.strip()\<close> removes the white space at both ends, which is every
  code point for which \<^verbatim>\<open>str.isspace\<close> holds.
\<close>

fun code_points :: "string \<Rightarrow> nat list" where
  "code_points [] = []"
| "code_points (c # cs) =
     (let b = of_char c
      in if b < 0x80 then b # code_points cs
         else if b < 0xE0 then
           (case cs of
              d # ds \<Rightarrow> ((b - 0xC0) * 64 + (of_char d - 0x80)) # code_points ds
            | [] \<Rightarrow> [b])
         else if b < 0xF0 then
           (case cs of
              d # e # es \<Rightarrow>
                ((b - 0xE0) * 4096 + (of_char d - 0x80) * 64 + (of_char e - 0x80)) # code_points es
            | _ \<Rightarrow> [b])
         else
           (case cs of
              d # e # f # fs \<Rightarrow>
                ((b - 0xF0) * 262144 + (of_char d - 0x80) * 4096 + (of_char e - 0x80) * 64
                 + (of_char f - 0x80)) # code_points fs
            | _ \<Rightarrow> [b]))"

definition isspace :: "nat \<Rightarrow> bool" where
  "isspace cp \<longleftrightarrow>
     (0x09 \<le> cp \<and> cp \<le> 0x0D) \<or> (0x1C \<le> cp \<and> cp \<le> 0x20) \<or> cp = 0x85 \<or> cp = 0xA0
     \<or> cp = 0x1680 \<or> (0x2000 \<le> cp \<and> cp \<le> 0x200A) \<or> cp = 0x2028 \<or> cp = 0x2029
     \<or> cp = 0x202F \<or> cp = 0x205F \<or> cp = 0x3000"

definition strip :: "string \<Rightarrow> nat list" where
  "strip t = rev (dropWhile isspace (rev (dropWhile isspace (code_points t))))"

definition extract_texts :: "node \<Rightarrow> node \<times> nat list list" where
  "extract_texts soup =
     (let without_invisible = remove_nodes invisible_element soup;
          without_comments = remove_nodes is_comment without_invisible;
          without_doctype =
            (case List.find (\<lambda>(r, d). is_doctype d) (located without_comments) of
               None \<Rightarrow> without_comments
             | Some (r, d) \<Rightarrow> remove_at without_comments r);
          texts_on_page = filter (\<lambda>(r, d). \<not> is_tag d) (located without_doctype);
          texts = map (\<lambda>(r, d). butlast r)
                    (filter (\<lambda>(r, d). strip (string_of d) \<noteq> [] \<and> string_of d \<noteq> [CHR 0x0A])
                       texts_on_page)
      in (without_doctype, texts))"

text \<open>
  \<^verbatim>\<open>
  def get_background_color(driver, text):
      if text is None:
          return "rgba(255,255,255,1)"
      selenium_element = driver.find_element(by="xpath", value=xpath_soup(text))
      background_color = convert_to_rgba_value(
          selenium_element.value_of_css_property('background-color'))
      if eval(background_color[4:])[3] == 0:
          return get_background_color(driver, text.parent)
      return background_color
  \<close>
  The element is an address in the page \<open>pg\<close>, or \<^verbatim>\<open>None\<close> above the root.
\<close>

function get_background_color :: "site \<Rightarrow> node \<Rightarrow> nat list option \<Rightarrow> error + rgba" where
  "get_background_color d pg None = Inr (255, 255, 255, 1)"
| "get_background_color d pg (Some text) =
     (case find_element d (xpath_soup pg text) of
        None \<Rightarrow> Inl NoSuchElementException
      | Some selenium_element \<Rightarrow>
          (let background = convert_to_rgba_value (background_color selenium_element)
           in if alpha background = 0
              then get_background_color d pg (parent text)
              else Inr background))"
  by pat_completeness auto
termination
  by (relation "measure (\<lambda>(d, pg, t). case t of None \<Rightarrow> 0 | Some r \<Rightarrow> Suc (length r))")
    (auto split: option.splits elim: parent.elims)

text \<open>
  \<^verbatim>\<open>int(''.join(filter(str.isdigit, font_size)))\<close>: the decimal digits of the string, read
  as one number; \<^verbatim>\<open>int('')\<close> raises \<^verbatim>\<open>ValueError\<close>.
\<close>

definition isdigit :: "char \<Rightarrow> bool" where
  "isdigit ch \<longleftrightarrow> ch \<in> set ''0123456789''"

definition int_of_digits :: "string \<Rightarrow> error + nat" where
  "int_of_digits t =
     (let digits = filter isdigit t
      in if digits = [] then Inl ValueError
         else Inr (foldl (\<lambda>acc ch. 10 * acc + (of_char ch - (48::nat))) 0 digits))"

text \<open>
  The size test of \<^verbatim>\<open>check_color_contrast\<close>:
  \<^verbatim>\<open>
  not font_size is None and font_size.__contains__("px") and \
      (int(...) >= 18 or ((font_weight == "bold" or font_weight == "700" \
      or font_weight == "800" or font_weight == "900" or text.name == "strong") \
      and int(...) >= 14))
  \<close>
\<close>

definition large_text :: "string option \<Rightarrow> string \<Rightarrow> string \<Rightarrow> error + bool" where
  "large_text fsize weight tag_name =
     (case fsize of
        None \<Rightarrow> Inr False
      | Some px \<Rightarrow>
          if \<not> sublist ''px'' px then Inr False
          else (case int_of_digits px of
                  Inl e \<Rightarrow> Inl e
                | Inr n \<Rightarrow>
                    Inr (n \<ge> 18
                         \<or> ((weight = ''bold'' \<or> weight = ''700'' \<or> weight = ''800''
                              \<or> weight = ''900'' \<or> tag_name = ''strong'') \<and> n \<ge> 14))))"

text \<open>
  The body of the loop of \<^verbatim>\<open>check_color_contrast\<close> for one element: an exception, no
  verdict for an element that is left out, or the verdict.
\<close>

definition contrast_verdict :: "site \<Rightarrow> node \<Rightarrow> nat list \<Rightarrow> error + finding option" where
  "contrast_verdict d pg text =
     (case get_node pg text of
        None \<Rightarrow> Inl NoSuchElementException
      | Some element \<Rightarrow>
     (case find_element d (xpath_soup pg text) of
        None \<Rightarrow> Inl NoSuchElementException
      | Some selenium_element \<Rightarrow>
          if display selenium_element \<noteq> ''none''
             \<and> (name element \<noteq> ''input''
                \<or> (name element = ''input'' \<and> attrs element ''type'' \<noteq> None
                    \<and> attrs element ''type'' \<noteq> Some ''hidden''))
          then (let text_color = convert_to_rgba_value (color selenium_element)
                in case get_background_color d pg (Some text) of
                     Inl e \<Rightarrow> Inl e
                   | Inr background \<Rightarrow>
                       (let contrast = get_contrast_ratio text_color background
                        in case large_text (font_size selenium_element)
                                  (font_weight selenium_element) (name element) of
                             Inl e \<Rightarrow> Inl e
                           | Inr True \<Rightarrow>
                               if contrast \<ge> 3
                               then Inr (Some (True, ''Contrast meets minimum requirements''))
                               else Inr (Some (False, ''Contrast does not meet minimum requirements''))
                           | Inr False \<Rightarrow>
                               if contrast \<ge> 4.5
                               then Inr (Some (True, ''Contrast meets minimum requirements''))
                               else Inr (Some (False, ''Contrast does not meet minimum requirements''))))
          else Inr None))"

fun contrast_loop :: "site \<Rightarrow> node \<Rightarrow> nat list list \<Rightarrow> tester \<Rightarrow> error + tester" where
  "contrast_loop d pg [] s = Inr s"
| "contrast_loop d pg (text # rest) s =
     (case contrast_verdict d pg text of
        Inl e \<Rightarrow> Inl e
      | Inr None \<Rightarrow> contrast_loop d pg rest s
      | Inr (Some f) \<Rightarrow> contrast_loop d pg rest (record_finding color_contrast f s))"

definition check_color_contrast :: "tester \<Rightarrow> error + tester" where
  "check_color_contrast s =
     (let (stripped, texts_on_page) = extract_texts (page s);
          input_elements =
            map fst (filter (\<lambda>(r, d). is_tag d \<and> name d = ''input'') (located stripped));
          elements_with_text = texts_on_page @ input_elements
      in contrast_loop (driver s) stripped elements_with_text (s\<lparr>page := stripped\<rparr>))"


section \<open>The crawl\<close>

text \<open>
  The six checks in the order in which \<^verbatim>\<open>test_page\<close> calls them. Only the first and the
  last can raise.
\<close>

definition run_checks :: "tester \<Rightarrow> error + tester" where
  "run_checks s =
     (case check_doc_language s of
        Inl e \<Rightarrow> Inl e
      | Inr s1 \<Rightarrow>
          check_color_contrast (check_links (check_buttons (check_input_labels (check_alt_texts s1)))))"

text \<open>
  \<^verbatim>\<open>
  self.driver.switch_to.window(self.driver.window_handles[
      self.driver.window_handles.index(self.driver.current_window_handle)-1])
  \<close>
  From the first window the index is \<open>-1\<close>, which Python reads as the last window.
\<close>

definition switch_to_previous :: "tester \<Rightarrow> tester" where
  "switch_to_previous s =
     s\<lparr>current_window :=
         (if current_window s = 0 then length (windows s) - 1 else current_window s - 1)\<rparr>"

text \<open>
  \<^verbatim>\<open>
  self.driver.execute_script("window.open('');")
  self.driver.switch_to.window(self.driver.window_handles[len(self.driver.window_handles)-1])
  \<close>
\<close>

definition open_window :: "tester \<Rightarrow> tester" where
  "open_window s =
     s\<lparr>windows := windows s @ [blank_window], current_window := length (windows s)\<rparr>"

text \<open>\<^verbatim>\<open>self.driver.get(link_url)\<close>, once the address is loaded: the current window shows it.\<close>

definition navigate :: "tester \<Rightarrow> site \<Rightarrow> tester" where
  "navigate s loaded = s\<lparr>windows := (windows s)[current_window s := loaded]\<rparr>"

text \<open>How a call ends: it returns, it raises, or the recursion is cut off.\<close>

datatype outcome = Returned | Raised error | Out_of_fuel

text \<open>
  \<^verbatim>\<open>test_page\<close> and the loop over the links of the page. The recursion of the source has
  no bound; the first argument bounds the depth of the nested calls of \<^verbatim>\<open>test_page\<close>,
  and a call that would go deeper ends with \<open>Out_of_fuel\<close>. Every result carries the
  tester as it is when the call ends, so that what has been opened and printed up to an
  exception or a cut is kept. When a check raises, the tester is the one before the checks
  of that page: the exception ends the program, and no counter is read after it.

  The screenshot is not modelled. The elements of \<^verbatim>\<open>link_list\<close> belong to the window
  they were found in; when the driver is at another window, the first command on such an
  element (\<^verbatim>\<open>link.get_attribute("href")\<close>) is answered with an error by the browser.
\<close>

fun test_page :: "env \<Rightarrow> nat \<Rightarrow> tester \<Rightarrow> outcome \<times> tester"
  and follow_links :: "env \<Rightarrow> nat \<Rightarrow> nat \<Rightarrow> link list \<Rightarrow> tester \<Rightarrow> outcome \<times> tester" where
  "test_page w 0 s = (Out_of_fuel, s)"
| "test_page w (Suc n) s =
     (let s1 = s\<lparr>page := page_source (driver s), audited := audited s @ [current_url (driver s)]\<rparr>
      in case run_checks s1 of
           Inl e \<Rightarrow> (Raised e, s1)
         | Inr s2 \<Rightarrow>
             if follow s2
             then (let s3 = s2\<lparr>visited_links := visited_links s2 @ [current_url (driver s2)]\<rparr>
                   in case follow_links w n (current_window s3) (find_links (driver s3)) s3 of
                        (Returned, s4) \<Rightarrow> (Returned, switch_to_previous s4)
                      | (Raised e, s4) \<Rightarrow> (Raised e, s4)
                      | (Out_of_fuel, s4) \<Rightarrow> (Out_of_fuel, s4))
             else (Returned, s2))"
| "follow_links w n origin [] s = (Returned, s)"
| "follow_links w n origin (link # link_list) s =
     (if current_window s \<noteq> origin then (Raised StaleElementReferenceException, s)
      else
        (let full_link = urljoin w (url s) (href link)
         in if \<not> is_displayed link \<or> href link = Some [] \<or> href link = None
               \<or> full_link = current_url (driver s) \<or> full_link \<in> set (visited_links s)
            then follow_links w n origin link_list s
            else
              (case href link of
                 None \<Rightarrow> follow_links w n origin link_list s
               | Some link_url \<Rightarrow>
                   (let s1 = open_window s
                    in case get w link_url of
                         None \<Rightarrow> (Raised WebDriverException, s1)
                       | Some loaded \<Rightarrow>
                           (let s2 = navigate s1 loaded
                            in if current_url (driver s2) \<in> set (visited_links s2)
                               then follow_links w n origin link_list (switch_to_previous s2)
                               else
                                 (case hostname w (url s2) of
                                    None \<Rightarrow> (Raised TypeError, s2)
                                  | Some host \<Rightarrow>
                                      if \<not> sublist host (current_url (driver s2))
                                      then follow_links w n origin link_list (switch_to_previous s2)
                                      else
                                        (case test_page w n s2 of
                                           (Returned, s3) \<Rightarrow> follow_links w n origin link_list s3
                                         | (Raised e, s3) \<Rightarrow> (Raised e, s3)
                                         | (Out_of_fuel, s3) \<Rightarrow> (Out_of_fuel, s3))))))))"

section \<open>The result\<close>

text \<open>\<^verbatim>\<open>sum(self.correct.values())\<close>: the sum over the six keys of the dictionary.\<close>

definition categories :: "category list" where
  "categories = [doc_language, alt_texts, input_labels, empty_buttons, empty_links, color_contrast]"

definition total :: "(category \<Rightarrow> nat) \<Rightarrow> nat" where
  "total counts = sum_list (map counts categories)"

text \<open>
  \<^verbatim>\<open>calculate_result\<close> prints one of two messages and returns, or raises
  \<^verbatim>\<open>Exception("Too many accessibility errors - try fix them!")\<close>. The division is Python's
  true division, taken on the real numbers.
\<close>

datatype verdict = Nothing_found | Test_successful

definition ratio :: "tester \<Rightarrow> real" where
  "ratio s = real (total (correct s)) / real (total (correct s) + total (wrong s))"

definition calculate_result :: "tester \<Rightarrow> error + verdict" where
  "calculate_result s =
     (let correct_sum = total (correct s);
          false_sum = total (wrong s)
      in if correct_sum = 0 \<and> false_sum = 0 then Inr Nothing_found
         else if real correct_sum / real (correct_sum + false_sum) \<ge> required_degree s
         then Inr Test_successful
         else Inl TooManyErrors)"


text \<open>
  The part of \<^verbatim>\<open>main\<close> between the construction of the tester and the result:
  \<^verbatim>\<open>start_driver()\<close>, then \<^verbatim>\<open>test_page()\<close>.
\<close>

definition crawl :: "env \<Rightarrow> nat \<Rightarrow> string \<Rightarrow> real \<Rightarrow> bool \<Rightarrow> outcome \<times> tester" where
  "crawl w n u degree fol =
     (case start_driver w (init u degree fol) of
        Inl e \<Rightarrow> (Raised e, init u degree fol)
      | Inr s \<Rightarrow> test_page w n s)"


section \<open>Notions of the statements and example pages\<close>

text \<open>
  The definitions of this section are not code of the program: they name what the
  statements below talk about, and they build the small pages, sites and webs on which
  the statements are tried.

  Two testers agree on the crawl when they differ at most in the page and the counters;
  the counters of one are below those of another when no counter is smaller.
\<close>

definition same_crawl :: "tester \<Rightarrow> tester \<Rightarrow> bool" where
  "same_crawl s s' \<longleftrightarrow>
     url s' = url s \<and> required_degree s' = required_degree s \<and> follow s' = follow s
     \<and> visited_links s' = visited_links s \<and> windows s' = windows s
     \<and> current_window s' = current_window s \<and> audited s' = audited s"

definition tally_le :: "tester \<Rightarrow> tester \<Rightarrow> bool" where
  "tally_le s s' \<longleftrightarrow> (\<forall>c. correct s c \<le> correct s' c \<and> wrong s c \<le> wrong s' c)"

text \<open>
  A tester with one wrong finding and the required degree 1; a document with a language
  and a given body; an input and a button that have a title and nothing else; a tester
  that holds a given page.
\<close>

definition failing_tester :: tester where
  "failing_tester = add_wrong alt_texts (init ''http://a.test/'' 1 False)"

definition document :: "node list \<Rightarrow> node" where
  "document body =
     Tag ''[document]'' Map.empty
       [Tag ''html'' [''lang'' \<mapsto> ''en''] [Tag ''body'' Map.empty body]]"

definition titled_submit :: node where
  "titled_submit = Tag ''input'' [''type'' \<mapsto> ''submit'', ''title'' \<mapsto> ''Send''] []"

definition titled_button :: node where
  "titled_button = Tag ''button'' [''title'' \<mapsto> ''Close''] []"

definition tester_on :: "node \<Rightarrow> tester" where
  "tester_on pg = (init ''http://a.test/'' 1 False)\<lparr>page := pg\<rparr>"

text \<open>
  The four ways of labelling an input, as the specification names them: an image input
  with an alternative text, a direct label attribute, a reference to a labelling element,
  and a label element whose \<^verbatim>\<open>for\<close> is the identifier of the input.
\<close>

definition image_with_alt :: "node \<Rightarrow> bool" where
  "image_with_alt e \<longleftrightarrow>
     attrs e ''type'' = Some ''image'' \<and> attrs e ''alt'' \<noteq> None \<and> attrs e ''alt'' \<noteq> Some []"

definition direct_label :: "node \<Rightarrow> bool" where
  "direct_label e \<longleftrightarrow> attrs e ''aria-label'' \<noteq> None \<and> attrs e ''aria-label'' \<noteq> Some []"

definition label_reference :: "node \<Rightarrow> string option" where
  "label_reference e =
     (case attrs e ''aria-labelledby'' of
        None \<Rightarrow> None
      | Some ident \<Rightarrow> if ident = [] then None else Some ident)"

definition label_for :: "node list \<Rightarrow> node \<Rightarrow> bool" where
  "label_for label_elements e \<longleftrightarrow>
     list_ex (\<lambda>lab. attrs lab ''for'' \<noteq> None \<and> attrs lab ''for'' = attrs e ''id'') label_elements"

definition referencing_input :: node where
  "referencing_input = Tag ''input'' [''aria-labelledby'' \<mapsto> ''x''] []"

definition empty_span :: node where
  "empty_span = Tag ''span'' [''id'' \<mapsto> ''x''] []"

text \<open>
  The element and its ancestors, nearest first, the background colour the browser
  reports for each, and the first colour of a chain that is not fully transparent, white
  when there is none.
\<close>

definition element_chain :: "nat list \<Rightarrow> nat list list" where
  "element_chain text = rev (prefixes text)"

definition background_of :: "site \<Rightarrow> node \<Rightarrow> nat list \<Rightarrow> rgba option" where
  "background_of d pg r =
     map_option (\<lambda>el. convert_to_rgba_value (background_color el))
       (find_element d (xpath_soup pg r))"

definition first_painted :: "rgba list \<Rightarrow> rgba" where
  "first_painted chain =
     (case List.find (\<lambda>c. 0 < alpha c) chain of None \<Rightarrow> (255, 255, 255, 1) | Some c \<Rightarrow> c)"

definition transparent_style :: style where
  "transparent_style =
     \<lparr>display = ''block'', color = Rgb 0 0 0, background_color = Rgba 0 0 0 0,
      font_size = Some ''16px'', font_weight = ''400''\<rparr>"

definition painted_html_site :: site where
  "painted_html_site =
     \<lparr>current_url = ''http://a.test/'', page_source = document [],
      find_element = (\<lambda>p. if p = [(''html'', None)]
                            then Some (transparent_style\<lparr>background_color := Rgb 10 20 30\<rparr>)
                            else Some transparent_style),
      find_links = []\<rparr>"

text \<open>
  A page whose body is one link with a text, a site that shows it with black text on a
  transparent background, and small webs of such sites. The links are absolute, so
  \<^verbatim>\<open>urljoin\<close> returns them as they are.
\<close>

definition page_with_link :: "string \<Rightarrow> node" where
  "page_with_link target = document [Tag ''a'' [''href'' \<mapsto> target] [NavigableString ''next'']]"

definition site_with_link :: "string \<Rightarrow> string \<Rightarrow> site" where
  "site_with_link address target =
     \<lparr>current_url = address, page_source = page_with_link target,
      find_element = (\<lambda>p. Some transparent_style),
      find_links = [\<lparr>is_displayed = True, href = Some target\<rparr>]\<rparr>"

definition absolute_urljoin :: "string \<Rightarrow> string option \<Rightarrow> string" where
  "absolute_urljoin base h = (case h of None \<Rightarrow> base | Some u \<Rightarrow> u)"

text \<open>
  The host of an address of the form \<^verbatim>\<open>http://host/path\<close>, as \<^verbatim>\<open>urlparse\<close> gives it for
  the addresses of the examples.
\<close>

definition host_of :: "string \<Rightarrow> string option" where
  "host_of u =
     (if take 7 u = ''http://'' then Some (takeWhile (\<lambda>ch. ch \<noteq> CHR ''/'') (drop 7 u))
      else None)"

definition web :: "(string \<times> site) list \<Rightarrow> env" where
  "web sites = \<lparr>get = map_of sites, urljoin = absolute_urljoin, hostname = host_of\<rparr>"

definition checked_link_page :: "string \<Rightarrow> tester \<Rightarrow> tester" where
  "checked_link_page t s =
     record_finding color_contrast (True, ''Contrast meets minimum requirements'')
       ((record_finding empty_links (True, ''Link has content'')
          (record_finding doc_language (True, ''Document language is set'') s))
        \<lparr>page := page_with_link t\<rparr>)"

definition cross_origin_web :: env where
  "cross_origin_web =
     web [(''http://a.test/'', site_with_link ''http://a.test/'' ''http://b.test/''),
          (''http://b.test/'', site_with_link ''http://b.test/'' ''http://a.test/'')]"

text \<open>
  The test of the source for the host: the host name of the configured address occurs in
  the address the browser reports. \<open>linked_from\<close> relates two testers when the second has
  the same configured address and has tested, after the first, only pages whose address
  passes that test; \<open>tested_from\<close> when it has tested nothing, or the page at \<open>here\<close> and
  then only pages whose address passes that test.
\<close>

definition on_host :: "env \<Rightarrow> string \<Rightarrow> string \<Rightarrow> bool" where
  "on_host w u x \<longleftrightarrow> (case hostname w u of None \<Rightarrow> False | Some host \<Rightarrow> sublist host x)"

definition linked_from :: "env \<Rightarrow> tester \<Rightarrow> tester \<Rightarrow> bool" where
  "linked_from w s s' \<longleftrightarrow>
     url s' = url s
     \<and> (\<exists>new. audited s' = audited s @ new \<and> list_all (on_host w (url s)) new)"

definition tested_from :: "env \<Rightarrow> string \<Rightarrow> tester \<Rightarrow> tester \<Rightarrow> bool" where
  "tested_from w here s s' \<longleftrightarrow>
     url s' = url s
     \<and> (audited s' = audited s
        \<or> (\<exists>new. audited s' = audited s @ here # new \<and> list_all (on_host w (url s)) new))"

text \<open>
  Between two pages of a crawl that follows links, the addresses tested so far are the
  visited ones, and none occurs twice. A link is \<open>skipped\<close> by the first test of the
  loop over the links.
\<close>

definition in_step :: "tester \<Rightarrow> bool" where
  "in_step s \<longleftrightarrow> audited s = visited_links s \<and> distinct (visited_links s)"

definition skipped :: "env \<Rightarrow> tester \<Rightarrow> link \<Rightarrow> bool" where
  "skipped w s l \<longleftrightarrow>
     \<not> is_displayed l \<or> href l = Some [] \<or> href l = None
     \<or> urljoin w (url s) (href l) = current_url (driver s)
     \<or> urljoin w (url s) (href l) \<in> set (visited_links s)"

text \<open>
  The link graphs of claim C9. A tester that has just loaded a site and holds its page;
  the checks return on a site when none of them raises on that tester, and the passes and
  fails of a site are the counters they leave there. Two testers are level when they hold
  the same page in the same browser and their counters differ by fixed amounts.

  A link is followed when it is displayed and has an address that is not empty. A link
  leads to a site when its address resolves to the address of the site and the browser
  loads the site for it. A page links only to itself when every link that is followed
  resolves to its own address. Two pages form a cycle when they have different addresses,
  the second is on the configured host, every followed link of the first resolves to its
  own address or leads to the second, one at least leads to the second, and every followed
  link of the second resolves to one of the two addresses.
\<close>

definition tester_at :: "site \<Rightarrow> tester" where
  "tester_at st =
     (init (current_url st) 1 False)
       \<lparr>windows := [st], current_window := 0, page := page_source st\<rparr>"

definition checks_return :: "site \<Rightarrow> bool" where
  "checks_return st \<longleftrightarrow> (case run_checks (tester_at st) of Inl e \<Rightarrow> False | Inr s \<Rightarrow> True)"

definition passes_on :: "site \<Rightarrow> category \<Rightarrow> nat" where
  "passes_on st c = (case run_checks (tester_at st) of Inl e \<Rightarrow> 0 | Inr s \<Rightarrow> correct s c)"

definition fails_on :: "site \<Rightarrow> category \<Rightarrow> nat" where
  "fails_on st c = (case run_checks (tester_at st) of Inl e \<Rightarrow> 0 | Inr s \<Rightarrow> wrong s c)"

definition level :: "(category \<Rightarrow> int) \<Rightarrow> (category \<Rightarrow> int) \<Rightarrow> tester \<Rightarrow> tester \<Rightarrow> bool" where
  "level dc dw s t \<longleftrightarrow>
     page t = page s \<and> driver t = driver s
     \<and> (\<forall>c. int (correct t c) = int (correct s c) + dc c
             \<and> int (wrong t c) = int (wrong s c) + dw c)"

definition followed :: "link \<Rightarrow> bool" where
  "followed l \<longleftrightarrow> is_displayed l \<and> href l \<noteq> None \<and> href l \<noteq> Some []"

definition leads_to :: "env \<Rightarrow> string \<Rightarrow> link \<Rightarrow> site \<Rightarrow> bool" where
  "leads_to w u l B \<longleftrightarrow>
     urljoin w u (href l) = current_url B
     \<and> (case href l of None \<Rightarrow> False | Some link_url \<Rightarrow> get w link_url = Some B)"

definition self_linking :: "env \<Rightarrow> site \<Rightarrow> bool" where
  "self_linking w A \<longleftrightarrow>
     get w (current_url A) = Some A
     \<and> list_all (\<lambda>l. \<not> followed l \<or> urljoin w (current_url A) (href l) = current_url A)
         (find_links A)
     \<and> checks_return A"

definition two_page_cycle :: "env \<Rightarrow> site \<Rightarrow> site \<Rightarrow> bool" where
  "two_page_cycle w A B \<longleftrightarrow>
     current_url A \<noteq> current_url B
     \<and> get w (current_url A) = Some A
     \<and> on_host w (current_url A) (current_url B)
     \<and> list_all (\<lambda>l. \<not> followed l \<or> urljoin w (current_url A) (href l) = current_url A
                      \<or> leads_to w (current_url A) l B) (find_links A)
     \<and> list_ex (\<lambda>l. followed l \<and> leads_to w (current_url A) l B) (find_links A)
     \<and> list_all (\<lambda>l. \<not> followed l \<or> urljoin w (current_url A) (href l) = current_url A
                      \<or> urljoin w (current_url A) (href l) = current_url B) (find_links B)
     \<and> checks_return A \<and> checks_return B"

text \<open>
  The number of findings of a category, the elements for which the colour check gives a
  verdict, and the elements the colour check goes through.
\<close>

definition judged :: "tester \<Rightarrow> category \<Rightarrow> nat" where
  "judged s c = correct s c + wrong s c"

definition has_verdict :: "site \<Rightarrow> node \<Rightarrow> nat list \<Rightarrow> bool" where
  "has_verdict d pg element \<longleftrightarrow>
     (case contrast_verdict d pg element of Inr (Some f) \<Rightarrow> True | _ \<Rightarrow> False)"

definition elements_with_text :: "node \<Rightarrow> nat list list" where
  "elements_with_text pg =
     snd (extract_texts pg)
     @ map fst (filter (\<lambda>(r, d). is_tag d \<and> name d = ''input'') (located (fst (extract_texts pg))))"

text \<open>
  What the specification says of the content of an element: it has a title when the
  \<^verbatim>\<open>title\<close> attribute is there and not empty; it holds a visible text when one of the
  strings below it, at any depth, is not blank; it holds only elements when there is no
  string, comment or other node that is not an element below it.
\<close>

definition has_title :: "node \<Rightarrow> bool" where
  "has_title e \<longleftrightarrow> attrs e ''title'' \<noteq> None \<and> attrs e ''title'' \<noteq> Some []"

definition shows_text :: "node \<Rightarrow> bool" where
  "shows_text d \<longleftrightarrow> (case d of NavigableString t \<Rightarrow> strip t \<noteq> [] | _ \<Rightarrow> False)"

definition visible_text :: "node \<Rightarrow> bool" where
  "visible_text e \<longleftrightarrow> list_ex shows_text (descendants e)"

definition only_elements :: "node \<Rightarrow> bool" where
  "only_elements e \<longleftrightarrow> list_all is_tag (descendants e)"

text \<open>
  A button that holds an image, a button that holds a text, an input that refers to a
  missing element and has a label element, that label element, a text area, an element
  with a text to refer to, and a paragraph with two texts around an element with a text.
\<close>

definition image_button :: node where
  "image_button = Tag ''button'' Map.empty [Tag ''img'' [''alt'' \<mapsto> ''Close''] []]"

definition text_button :: node where
  "text_button = Tag ''button'' Map.empty [NavigableString ''Save'']"

definition dangling_input :: node where
  "dangling_input = Tag ''input'' [''id'' \<mapsto> ''a'', ''aria-labelledby'' \<mapsto> ''nope''] []"

definition name_label :: node where
  "name_label = Tag ''label'' [''for'' \<mapsto> ''a''] [NavigableString ''Name'']"

definition plain_textarea :: node where
  "plain_textarea = Tag ''textarea'' Map.empty []"

definition named_span :: node where
  "named_span = Tag ''span'' [''id'' \<mapsto> ''x''] [NavigableString ''Name'']"

definition mixed_paragraph :: node where
  "mixed_paragraph =
     Tag ''p'' Map.empty
       [NavigableString ''a'', Tag ''b'' Map.empty [NavigableString ''x''], NavigableString ''c'']"

text \<open>
  A web of two pages of one host that link to each other, a web of one page that links to
  itself, a web of one page whose link is its own address with a fragment, under which
  the browser shows the same document, a web whose start page links to an address of
  another host in which the configured host name occurs, a site that shows the paragraph,
  testers as \<^verbatim>\<open>start_driver\<close> leaves them on a page, and a page whose only button holds a
  comment.
\<close>

definition same_host_web :: env where
  "same_host_web =
     web [(''http://a.test/'', site_with_link ''http://a.test/'' ''http://a.test/b''),
          (''http://a.test/b'', site_with_link ''http://a.test/b'' ''http://a.test/'')]"

definition self_link_web :: env where
  "self_link_web = web [(''http://a.test/'', site_with_link ''http://a.test/'' ''http://a.test/'')]"

definition fragment_web :: env where
  "fragment_web =
     web [(''http://a.test/'', site_with_link ''http://a.test/'' ''http://a.test/#top''),
          (''http://a.test/#top'', site_with_link ''http://a.test/#top'' ''http://a.test/#top'')]"

definition host_in_path_web :: env where
  "host_in_path_web =
     web [(''http://a.test/'', site_with_link ''http://a.test/'' ''http://b.test/a.test''),
          (''http://b.test/a.test'', site_with_link ''http://b.test/a.test'' ''http://a.test/'')]"

definition paragraph_site :: site where
  "paragraph_site =
     \<lparr>current_url = ''http://a.test/'', page_source = document [mixed_paragraph],
      find_element = (\<lambda>p. Some transparent_style), find_links = []\<rparr>"

definition paragraph_tester :: tester where
  "paragraph_tester =
     (init ''http://a.test/'' 1 False)
       \<lparr>windows := [paragraph_site], current_window := 0, page := document [mixed_paragraph]\<rparr>"

definition started :: tester where
  "started =
     (init ''http://a.test/'' 1 False)
       \<lparr>windows := [site_with_link ''http://a.test/'' ''http://b.test/''],
        current_window := 0, page := page_with_link ''http://b.test/''\<rparr>"

definition comment_button_page :: node where
  "comment_button_page = document [Tag ''button'' Map.empty [Comment '' icon '']]"


section \<open>Properties of the colour mathematics\<close>

lemma convert_rgb_8bit_value_nonneg: "0 \<le> c \<Longrightarrow> 0 \<le> convert_rgb_8bit_value c"
  by (simp add: convert_rgb_8bit_value_def Let_def)

lemma srgb_split: "real_of_int c / 255 \<le> 0.03928 \<longleftrightarrow> c \<le> 10"
  by (simp add: field_simps) linarith?

lemma convert_low: "c \<le> 10 \<Longrightarrow> convert_rgb_8bit_value c = real_of_int c / 255 / 12.92"
  using srgb_split [of c] by (simp add: convert_rgb_8bit_value_def Let_def)

lemma convert_high:
  "11 \<le> c \<Longrightarrow> convert_rgb_8bit_value c = ((real_of_int c / 255 + 0.055) / 1.055) powr 2.4"
  using srgb_split [of c] by (simp add: convert_rgb_8bit_value_def Let_def)

lemma convert_step_10_11: "convert_rgb_8bit_value 10 \<le> convert_rgb_8bit_value 11"
proof -
  define a :: real where "a = 10 / 255 / 12.92"
  define x :: real where "x = (11 / 255 + 0.055) / 1.055"
  have a0: "0 \<le> a" and x0: "0 < x" by (simp_all add: a_def x_def)
  have pw: "a ^ 5 \<le> x ^ 12" by (simp add: a_def x_def power_divide)
  have "a = (a ^ 5) powr (1/5)" using a0
    by (simp add: powr_realpow [symmetric] powr_powr flip: powr_numeral)
  also have "\<dots> \<le> (x ^ 12) powr (1/5)"
    using pw a0 by (intro powr_mono2) simp_all
  also have "\<dots> = x powr 2.4" using x0
    by (simp add: powr_powr flip: powr_numeral)
  finally show ?thesis
    by (simp add: convert_low convert_high a_def x_def)
qed

lemma convert_mono_low:
  assumes "c1 \<le> c2" "c2 \<le> 10"
  shows "convert_rgb_8bit_value c1 \<le> convert_rgb_8bit_value c2"
  using assms by (simp add: convert_low divide_right_mono)

lemma convert_mono_high:
  assumes "11 \<le> c1" "c1 \<le> c2"
  shows "convert_rgb_8bit_value c1 \<le> convert_rgb_8bit_value c2"
proof -
  have "(real_of_int c1 / 255 + 0.055) / 1.055 \<le> (real_of_int c2 / 255 + 0.055) / 1.055"
    using assms by (simp add: divide_right_mono)
  moreover have "0 \<le> (real_of_int c1 / 255 + 0.055) / 1.055"
    using assms by simp
  ultimately have "((real_of_int c1 / 255 + 0.055) / 1.055) powr 2.4
      \<le> ((real_of_int c2 / 255 + 0.055) / 1.055) powr 2.4"
    by (intro powr_mono2) simp_all
  then show ?thesis using assms by (simp add: convert_high)
qed

lemma convert_mono:
  assumes "c1 \<le> c2"
  shows "convert_rgb_8bit_value c1 \<le> convert_rgb_8bit_value c2"
proof -
  consider "c2 \<le> 10" | "11 \<le> c1" | "c1 \<le> 10" "11 \<le> c2" by linarith
  then show ?thesis
  proof cases
    case 1
    then show ?thesis using assms by (intro convert_mono_low)
  next
    case 2
    then show ?thesis using assms by (intro convert_mono_high)
  next
    case 3
    have "convert_rgb_8bit_value c1 \<le> convert_rgb_8bit_value 10"
      using 3 by (intro convert_mono_low) simp_all
    also have "\<dots> \<le> convert_rgb_8bit_value 11" by (rule convert_step_10_11)
    also have "\<dots> \<le> convert_rgb_8bit_value c2"
      using 3 by (intro convert_mono_high) simp_all
    finally show ?thesis .
  qed
qed

lemma convert_zero: "convert_rgb_8bit_value 0 = 0"
  by (simp add: convert_rgb_8bit_value_def)

lemma convert_255: "convert_rgb_8bit_value 255 = 1"
  by (simp add: convert_rgb_8bit_value_def)

lemma convert_le_one: "c \<le> 255 \<Longrightarrow> convert_rgb_8bit_value c \<le> 1"
  using convert_mono [of c 255] by (simp add: convert_255)

text \<open>
  Claim C8. The conversion of a channel maps 0 to 0 and 255 to 1, never decreases when
  the channel grows, and is the piecewise sRGB transfer function with the split at
  \<open>0.03928\<close>. The channels are integers, as the name of the source function says; the
  property holds for every pair of integers, inside and outside the range 0 to 255.
\<close>

theorem linearize_transfer_function:
  "convert_rgb_8bit_value 0 = 0 \<and> convert_rgb_8bit_value 255 = 1
   \<and> (c1 \<le> c2 \<longrightarrow> convert_rgb_8bit_value c1 \<le> convert_rgb_8bit_value c2)
   \<and> convert_rgb_8bit_value c = linearize_spec c"
proof -
  have "convert_rgb_8bit_value c = linearize_spec c"
    by (simp add: convert_rgb_8bit_value_def linearize_spec_def Let_def)
  then show ?thesis
    using convert_zero convert_255 convert_mono by blast
qed

theorem linearize_transfer_function_witness:
  "(10::int) \<le> 11 \<and> convert_rgb_8bit_value 10 \<le> convert_rgb_8bit_value 11
   \<and> convert_rgb_8bit_value 10 = 50 / 16473"
proof -
  have "linearize_spec 10 = 50 / 16473"
    by (simp add: linearize_spec_def)
  then show ?thesis
    using linearize_transfer_function [of 10 11 10] by simp
qed

lemma luminance_nonneg: "color_ok c \<Longrightarrow> 0 \<le> luminance c"
  by (simp add: luminance_def color_ok_def channel_ok_def convert_rgb_8bit_value_nonneg)

text \<open>
  Claim C7. The contrast ratio does not depend on the order of its two arguments; for
  colours with channels from 0 to 255 the ratio of a colour with itself is 1 and every
  ratio is at least 1.
\<close>

theorem contrast_ratio_symmetric:
  "get_contrast_ratio a b = get_contrast_ratio b a
   \<and> (color_ok a \<longrightarrow> get_contrast_ratio a a = 1)
   \<and> (color_ok a \<and> color_ok b \<longrightarrow> 1 \<le> get_contrast_ratio a b)"
proof -
  have sym: "get_contrast_ratio a b = get_contrast_ratio b a"
    by (cases "luminance a" "luminance b" rule: linorder_cases)
      (simp_all add: get_contrast_ratio_def Let_def)
  have self: "get_contrast_ratio a a = 1" if "color_ok a"
    using luminance_nonneg [OF that] by (simp add: get_contrast_ratio_def Let_def)
  have ge: "1 \<le> get_contrast_ratio a b" if "color_ok a" "color_ok b"
    using luminance_nonneg [OF that(1)] luminance_nonneg [OF that(2)]
    by (simp add: get_contrast_ratio_def Let_def)
  from sym self ge show ?thesis by blast
qed

theorem contrast_ratio_symmetric_witness:
  "color_ok (0, 0, 0, 1) \<and> color_ok (255, 255, 255, 1)
   \<and> get_contrast_ratio (0, 0, 0, 1) (255, 255, 255, 1)
       = get_contrast_ratio (255, 255, 255, 1) (0, 0, 0, 1)
   \<and> get_contrast_ratio (0, 0, 0, 1) (0, 0, 0, 1) = 1
   \<and> 1 \<le> get_contrast_ratio (0, 0, 0, 1) (255, 255, 255, 1)
   \<and> get_contrast_ratio (0, 0, 0, 1) (255, 255, 255, 1) = 21"
proof -
  have ok: "color_ok (0, 0, 0, 1)" "color_ok (255, 255, 255, 1)"
    by (simp_all add: color_ok_def channel_ok_def red_def green_def blue_def)
  have "get_contrast_ratio (0, 0, 0, 1) (255, 255, 255, 1) = 21"
    by (simp add: get_contrast_ratio_def luminance_def red_def green_def blue_def
        convert_zero convert_255)
  with ok show ?thesis
    using contrast_ratio_symmetric [of "(0, 0, 0, 1)" "(255, 255, 255, 1)"] by simp
qed

section \<open>What the checks leave unchanged\<close>

subsection \<open>Counters\<close>

lemma record_finding_fields [simp]:
  "url (record_finding c f s) = url s"
  "required_degree (record_finding c f s) = required_degree s"
  "follow (record_finding c f s) = follow s"
  "page (record_finding c f s) = page s"
  "visited_links (record_finding c f s) = visited_links s"
  "windows (record_finding c f s) = windows s"
  "current_window (record_finding c f s) = current_window s"
  "audited (record_finding c f s) = audited s"
  by (simp_all add: record_finding_def add_correct_def add_wrong_def)

lemma record_finding_correct:
  "correct (record_finding c f s) c' = correct s c' + (if c' = c \<and> fst f then 1 else 0)"
  by (simp add: record_finding_def add_correct_def add_wrong_def)

lemma record_finding_wrong:
  "wrong (record_finding c f s) c' = wrong s c' + (if c' = c \<and> \<not> fst f then 1 else 0)"
  by (simp add: record_finding_def add_correct_def add_wrong_def)

lemma fold_record_fields [simp]:
  "url (fold (\<lambda>x. record_finding c (v x)) xs s) = url s"
  "required_degree (fold (\<lambda>x. record_finding c (v x)) xs s) = required_degree s"
  "follow (fold (\<lambda>x. record_finding c (v x)) xs s) = follow s"
  "page (fold (\<lambda>x. record_finding c (v x)) xs s) = page s"
  "visited_links (fold (\<lambda>x. record_finding c (v x)) xs s) = visited_links s"
  "windows (fold (\<lambda>x. record_finding c (v x)) xs s) = windows s"
  "current_window (fold (\<lambda>x. record_finding c (v x)) xs s) = current_window s"
  "audited (fold (\<lambda>x. record_finding c (v x)) xs s) = audited s"
  by (induction xs arbitrary: s; simp)+

lemma fold_record_correct:
  "correct (fold (\<lambda>x. record_finding c (v x)) xs s) c' =
     correct s c' + (if c' = c then length (filter (\<lambda>x. fst (v x)) xs) else 0)"
  by (induction xs arbitrary: s) (simp_all add: record_finding_correct)

lemma fold_record_wrong:
  "wrong (fold (\<lambda>x. record_finding c (v x)) xs s) c' =
     wrong s c' + (if c' = c then length (filter (\<lambda>x. \<not> fst (v x)) xs) else 0)"
  by (induction xs arbitrary: s) (simp_all add: record_finding_wrong)

lemma driver_fold_record [simp]:
  "driver (fold (\<lambda>x. record_finding c (v x)) xs s) = driver s"
  by (simp add: driver_def)

lemma check_alt_texts_fields [simp]:
  "url (check_alt_texts s) = url s"
  "required_degree (check_alt_texts s) = required_degree s"
  "follow (check_alt_texts s) = follow s"
  "page (check_alt_texts s) = page s"
  "visited_links (check_alt_texts s) = visited_links s"
  "windows (check_alt_texts s) = windows s"
  "current_window (check_alt_texts s) = current_window s"
  "audited (check_alt_texts s) = audited s"
  by (simp_all add: check_alt_texts_def)

lemma check_input_labels_fields [simp]:
  "url (check_input_labels s) = url s"
  "required_degree (check_input_labels s) = required_degree s"
  "follow (check_input_labels s) = follow s"
  "page (check_input_labels s) = page s"
  "visited_links (check_input_labels s) = visited_links s"
  "windows (check_input_labels s) = windows s"
  "current_window (check_input_labels s) = current_window s"
  "audited (check_input_labels s) = audited s"
  by (simp_all add: check_input_labels_def Let_def)

lemma check_buttons_fields [simp]:
  "url (check_buttons s) = url s"
  "required_degree (check_buttons s) = required_degree s"
  "follow (check_buttons s) = follow s"
  "page (check_buttons s) = page s"
  "visited_links (check_buttons s) = visited_links s"
  "windows (check_buttons s) = windows s"
  "current_window (check_buttons s) = current_window s"
  "audited (check_buttons s) = audited s"
  by (simp_all add: check_buttons_def Let_def)

lemma check_links_fields [simp]:
  "url (check_links s) = url s"
  "required_degree (check_links s) = required_degree s"
  "follow (check_links s) = follow s"
  "page (check_links s) = page s"
  "visited_links (check_links s) = visited_links s"
  "windows (check_links s) = windows s"
  "current_window (check_links s) = current_window s"
  "audited (check_links s) = audited s"
  by (simp_all add: check_links_def)

lemma same_crawl_refl [simp]: "same_crawl s s"
  by (simp add: same_crawl_def)

lemma same_crawl_trans: "same_crawl s t \<Longrightarrow> same_crawl t u \<Longrightarrow> same_crawl s u"
  by (simp add: same_crawl_def)

lemma same_crawl_driver: "same_crawl s s' \<Longrightarrow> driver s' = driver s"
  by (simp add: same_crawl_def driver_def)

lemma same_crawl_record [simp]: "same_crawl s (record_finding c f s)"
  by (simp add: same_crawl_def)

lemma same_crawl_page [simp]: "same_crawl s (s\<lparr>page := p\<rparr>)"
  by (simp add: same_crawl_def)

lemma check_doc_language_same:
  "check_doc_language s = Inr s' \<Longrightarrow> same_crawl s s' \<and> page s' = page s"
  by (auto simp: check_doc_language_def same_crawl_def split: option.splits)

lemma contrast_loop_same:
  "contrast_loop d pg els s = Inr s' \<Longrightarrow> same_crawl s s' \<and> page s' = page s"
proof (induction els arbitrary: s)
  case Nil
  then show ?case by simp
next
  case (Cons t els)
  show ?case
  proof (cases "contrast_verdict d pg t")
    case (Inl e)
    with Cons.prems show ?thesis by simp
  next
    case (Inr v)
    show ?thesis
    proof (cases v)
      case None
      with Inr Cons.prems Cons.IH [of s] show ?thesis by simp
    next
      case (Some f)
      with Inr Cons.prems Cons.IH [of "record_finding color_contrast f s"]
      show ?thesis by (simp add: same_crawl_def)
    qed
  qed
qed

lemma check_color_contrast_same:
  assumes "check_color_contrast s = Inr s'"
  shows "same_crawl s s' \<and> page s' = fst (extract_texts (page s))"
proof -
  obtain pg ts where e: "extract_texts (page s) = (pg, ts)" by (cases "extract_texts (page s)")
  from assms e obtain els where
    "contrast_loop (driver s) pg els (s\<lparr>page := pg\<rparr>) = Inr s'"
    by (auto simp: check_color_contrast_def Let_def)
  from contrast_loop_same [OF this] e show ?thesis
    by (simp add: same_crawl_def)
qed

lemma tree_checks_same:
  "same_crawl s (check_links (check_buttons (check_input_labels (check_alt_texts s))))"
  by (simp add: same_crawl_def)

lemma run_checks_same:
  assumes "run_checks s = Inr s'"
  shows "same_crawl s s'"
proof -
  from assms obtain s1 where 1: "check_doc_language s = Inr s1"
    and 2: "check_color_contrast (check_links (check_buttons (check_input_labels (check_alt_texts s1)))) = Inr s'"
    by (auto simp: run_checks_def split: sum.splits)
  from check_doc_language_same [OF 1] tree_checks_same [of s1] check_color_contrast_same [OF 2]
  show ?thesis by (blast intro: same_crawl_trans)
qed

section \<open>The cases of the crawl\<close>

lemma driver_navigate_open [simp]: "driver (navigate (open_window s) loaded) = loaded"
  by (simp add: driver_def navigate_def open_window_def)

lemma navigate_open_fields [simp]:
  "url (navigate (open_window s) loaded) = url s"
  "follow (navigate (open_window s) loaded) = follow s"
  "required_degree (navigate (open_window s) loaded) = required_degree s"
  "visited_links (navigate (open_window s) loaded) = visited_links s"
  "audited (navigate (open_window s) loaded) = audited s"
  "correct (navigate (open_window s) loaded) = correct s"
  "wrong (navigate (open_window s) loaded) = wrong s"
  "windows (navigate (open_window s) loaded) = windows s @ [loaded]"
  "current_window (navigate (open_window s) loaded) = length (windows s)"
  by (simp_all add: navigate_def open_window_def)

lemma open_window_fields [simp]:
  "url (open_window s) = url s"
  "follow (open_window s) = follow s"
  "required_degree (open_window s) = required_degree s"
  "visited_links (open_window s) = visited_links s"
  "audited (open_window s) = audited s"
  "correct (open_window s) = correct s"
  "wrong (open_window s) = wrong s"
  "windows (open_window s) = windows s @ [blank_window]"
  "current_window (open_window s) = length (windows s)"
  by (simp_all add: open_window_def)

lemma switch_to_previous_fields [simp]:
  "url (switch_to_previous s) = url s"
  "follow (switch_to_previous s) = follow s"
  "required_degree (switch_to_previous s) = required_degree s"
  "visited_links (switch_to_previous s) = visited_links s"
  "audited (switch_to_previous s) = audited s"
  "correct (switch_to_previous s) = correct s"
  "wrong (switch_to_previous s) = wrong s"
  "windows (switch_to_previous s) = windows s"
  "page (switch_to_previous s) = page s"
  by (simp_all add: switch_to_previous_def)

lemma follow_links_Cons_cases [consumes 1, case_names stale skip nav_failed seen no_host
    other_host tested aborted]:
  assumes "follow_links w n origin (l # ls) s = (r, s')"
  obtains
    "current_window s \<noteq> origin" "r = Raised StaleElementReferenceException" "s' = s"
  | "current_window s = origin" "follow_links w n origin ls s = (r, s')"
  | link_url where "current_window s = origin" "href l = Some link_url"
      "get w link_url = None" "r = Raised WebDriverException" "s' = open_window s"
  | link_url loaded where "current_window s = origin" "href l = Some link_url"
      "get w link_url = Some loaded" "current_url loaded \<in> set (visited_links s)"
      "follow_links w n origin ls (switch_to_previous (navigate (open_window s) loaded)) = (r, s')"
  | link_url loaded where "current_window s = origin" "href l = Some link_url"
      "get w link_url = Some loaded" "hostname w (url s) = None"
      "r = Raised TypeError" "s' = navigate (open_window s) loaded"
  | link_url loaded host where "current_window s = origin" "href l = Some link_url"
      "get w link_url = Some loaded" "hostname w (url s) = Some host"
      "\<not> sublist host (current_url loaded)"
      "follow_links w n origin ls (switch_to_previous (navigate (open_window s) loaded)) = (r, s')"
  | link_url loaded host s3 where "current_window s = origin" "href l = Some link_url"
      "get w link_url = Some loaded" "hostname w (url s) = Some host"
      "sublist host (current_url loaded)" "current_url loaded \<notin> set (visited_links s)"
      "test_page w n (navigate (open_window s) loaded) = (Returned, s3)"
      "follow_links w n origin ls s3 = (r, s')"
  | link_url loaded host where "current_window s = origin" "href l = Some link_url"
      "get w link_url = Some loaded" "hostname w (url s) = Some host"
      "sublist host (current_url loaded)" "current_url loaded \<notin> set (visited_links s)"
      "test_page w n (navigate (open_window s) loaded) = (r, s')" "r \<noteq> Returned"
proof (cases "current_window s \<noteq> origin")
  case True
  with assms have "r = Raised StaleElementReferenceException" "s' = s" by simp_all
  with True show thesis by (rule that(1))
next
  case False
  then have origin: "current_window s = origin" by simp
  show thesis
  proof (cases "\<not> is_displayed l \<or> href l = Some [] \<or> href l = None
      \<or> urljoin w (url s) (href l) = current_url (driver s)
      \<or> urljoin w (url s) (href l) \<in> set (visited_links s)")
    case True
    with assms origin have "follow_links w n origin ls s = (r, s')" by (simp add: Let_def)
    with origin show thesis by (rule that(2))
  next
    case admitted: False
    then obtain link_url where h: "href l = Some link_url" by auto
    show thesis
    proof (cases "get w link_url")
      case None
      with assms origin admitted h have "r = Raised WebDriverException" "s' = open_window s"
        by (simp_all add: Let_def)
      with origin h None show thesis by (rule that(3))
    next
      case (Some loaded)
      let ?s2 = "navigate (open_window s) loaded"
      show thesis
      proof (cases "current_url loaded \<in> set (visited_links s)")
        case True
        with assms origin admitted h Some
        have "follow_links w n origin ls (switch_to_previous ?s2) = (r, s')"
          by (simp add: Let_def)
        with origin h Some True show thesis by (rule that(4))
      next
        case unseen: False
        show thesis
        proof (cases "hostname w (url s)")
          case None
          with assms origin admitted h Some unseen
          have "r = Raised TypeError" "s' = ?s2" by (simp_all add: Let_def)
          with origin h Some None show thesis by (rule that(5))
        next
          case host: (Some host)
          show thesis
          proof (cases "sublist host (current_url loaded)")
            case False
            with assms origin admitted h Some unseen host
            have "follow_links w n origin ls (switch_to_previous ?s2) = (r, s')"
              by (simp add: Let_def)
            with origin h Some host False show thesis by (rule that(6))
          next
            case inside: True
            obtain r3 s3 where t: "test_page w n ?s2 = (r3, s3)" by (cases "test_page w n ?s2")
            show thesis
            proof (cases "r3 = Returned")
              case True
              with assms origin admitted h Some unseen host inside t
              have "follow_links w n origin ls s3 = (r, s')" by (simp add: Let_def)
              moreover from t True have "test_page w n ?s2 = (Returned, s3)" by simp
              ultimately show thesis
                using origin h Some host inside unseen that(7) by blast
            next
              case False
              with assms origin admitted h Some unseen host inside t
              have "r = r3" "s' = s3" by (cases r3; simp add: Let_def)+
              with False t have "test_page w n ?s2 = (r, s')" "r \<noteq> Returned" by simp_all
              then show thesis
                using origin h Some host inside unseen that(8) by blast
            qed
          qed
        qed
      qed
    qed
  qed
qed

lemma test_page_Suc_cases [consumes 1, case_names raised single returned cut]:
  assumes "test_page w (Suc n) s = (r, s')"
  obtains
    e where "run_checks (s\<lparr>page := page_source (driver s), audited := audited s @ [current_url (driver s)]\<rparr>) = Inl e"
      "r = Raised e"
      "s' = s\<lparr>page := page_source (driver s), audited := audited s @ [current_url (driver s)]\<rparr>"
  | "run_checks (s\<lparr>page := page_source (driver s), audited := audited s @ [current_url (driver s)]\<rparr>) = Inr s'"
      "\<not> follow s" "r = Returned"
  | s2 s4 where "run_checks (s\<lparr>page := page_source (driver s), audited := audited s @ [current_url (driver s)]\<rparr>) = Inr s2"
      "follow s"
      "follow_links w n (current_window s) (find_links (driver s))
         (s2\<lparr>visited_links := visited_links s @ [current_url (driver s)]\<rparr>) = (Returned, s4)"
      "r = Returned" "s' = switch_to_previous s4"
  | s2 where "run_checks (s\<lparr>page := page_source (driver s), audited := audited s @ [current_url (driver s)]\<rparr>) = Inr s2"
      "follow s"
      "follow_links w n (current_window s) (find_links (driver s))
         (s2\<lparr>visited_links := visited_links s @ [current_url (driver s)]\<rparr>) = (r, s')"
      "r \<noteq> Returned"
proof -
  let ?s1 = "s\<lparr>page := page_source (driver s), audited := audited s @ [current_url (driver s)]\<rparr>"
  show thesis
  proof (cases "run_checks ?s1")
    case (Inl e)
    with assms have "r = Raised e" "s' = ?s1" by (simp_all add: Let_def)
    with Inl show thesis by (rule that(1))
  next
    case (Inr s2)
    from run_checks_same [OF Inr] have same: "same_crawl ?s1 s2" .
    then have f: "follow s2 = follow s" "visited_links s2 = visited_links s"
      "current_window s2 = current_window s" "driver s2 = driver s"
      by (simp_all add: same_crawl_def driver_def)
    show thesis
    proof (cases "follow s")
      case False
      with assms Inr f have "r = Returned" "s' = s2" by (simp_all add: Let_def)
      with Inr False show thesis using that(2) by blast
    next
      case True
      let ?s3 = "s2\<lparr>visited_links := visited_links s @ [current_url (driver s)]\<rparr>"
      have d3: "driver ?s3 = driver s" "current_window ?s3 = current_window s"
        using f by (simp_all add: driver_def)
      obtain r4 s4 where fl:
        "follow_links w n (current_window s) (find_links (driver s)) ?s3 = (r4, s4)"
        by (cases "follow_links w n (current_window s) (find_links (driver s)) ?s3")
      show thesis
      proof (cases "r4 = Returned")
        case r4: True
        with assms Inr f True fl d3 have "r = Returned" "s' = switch_to_previous s4"
          by (simp_all add: Let_def)
        moreover from fl r4 have
          "follow_links w n (current_window s) (find_links (driver s)) ?s3 = (Returned, s4)"
          by simp
        ultimately show thesis using Inr True that(3) by blast
      next
        case r4: False
        with assms Inr f True fl d3 have "r = r4" "s' = s4"
          by (cases r4; simp add: Let_def)+
        with fl r4 have
          "follow_links w n (current_window s) (find_links (driver s)) ?s3 = (r, s')"
          "r \<noteq> Returned" by simp_all
        then show thesis using Inr True that(4) by blast
      qed
    qed
  qed
qed

section \<open>The counters only grow\<close>

lemma tally_le_refl [simp]: "tally_le s s"
  by (simp add: tally_le_def)

lemma tally_le_trans: "tally_le s t \<Longrightarrow> tally_le t u \<Longrightarrow> tally_le s u"
  unfolding tally_le_def by (meson order_trans)

lemma tally_le_same: "correct s' = correct s \<Longrightarrow> wrong s' = wrong s \<Longrightarrow> tally_le s s'"
  by (simp add: tally_le_def)

lemma tally_le_record: "tally_le s (record_finding c f s)"
  by (simp add: tally_le_def record_finding_correct record_finding_wrong)

lemma tally_le_fold: "tally_le s (fold (\<lambda>x. record_finding c (v x)) xs s)"
  by (simp add: tally_le_def fold_record_correct fold_record_wrong)

lemma tally_le_check_alt_texts: "tally_le s (check_alt_texts s)"
  by (simp add: check_alt_texts_def tally_le_fold)

lemma tally_le_check_input_labels: "tally_le s (check_input_labels s)"
  by (simp add: check_input_labels_def Let_def tally_le_fold)

lemma tally_le_check_buttons: "tally_le s (check_buttons s)"
  unfolding check_buttons_def Let_def
  by (rule tally_le_trans [OF tally_le_fold tally_le_fold])

lemma tally_le_check_links: "tally_le s (check_links s)"
  by (simp add: check_links_def tally_le_fold)

lemma tally_le_check_doc_language: "check_doc_language s = Inr s' \<Longrightarrow> tally_le s s'"
  by (auto simp: check_doc_language_def tally_le_record split: option.splits)

lemma tally_le_contrast_loop: "contrast_loop d pg els s = Inr s' \<Longrightarrow> tally_le s s'"
proof (induction els arbitrary: s)
  case Nil
  then show ?case by simp
next
  case (Cons t els)
  show ?case
  proof (cases "contrast_verdict d pg t")
    case (Inl e)
    with Cons.prems show ?thesis by simp
  next
    case (Inr v)
    show ?thesis
    proof (cases v)
      case None
      with Inr Cons.prems Cons.IH [of s] show ?thesis by simp
    next
      case (Some f)
      with Inr Cons.prems Cons.IH [of "record_finding color_contrast f s"]
      have "tally_le (record_finding color_contrast f s) s'" by simp
      with tally_le_record show ?thesis by (rule tally_le_trans)
    qed
  qed
qed

lemma tally_le_check_color_contrast:
  assumes "check_color_contrast s = Inr s'"
  shows "tally_le s s'"
proof -
  obtain pg ts where e: "extract_texts (page s) = (pg, ts)" by (cases "extract_texts (page s)")
  from assms e obtain els where
    "contrast_loop (driver s) pg els (s\<lparr>page := pg\<rparr>) = Inr s'"
    by (auto simp: check_color_contrast_def Let_def)
  from tally_le_contrast_loop [OF this] show ?thesis
    by (simp add: tally_le_def)
qed

lemma tally_le_run_checks:
  assumes "run_checks s = Inr s'"
  shows "tally_le s s'"
proof -
  from assms obtain s1 where 1: "check_doc_language s = Inr s1"
    and 2: "check_color_contrast (check_links (check_buttons (check_input_labels (check_alt_texts s1)))) = Inr s'"
    by (auto simp: run_checks_def split: sum.splits)
  have "tally_le s1 (check_links (check_buttons (check_input_labels (check_alt_texts s1))))"
    by (meson tally_le_trans tally_le_check_alt_texts tally_le_check_input_labels
        tally_le_check_buttons tally_le_check_links)
  with tally_le_check_doc_language [OF 1] tally_le_check_color_contrast [OF 2]
  show ?thesis by (meson tally_le_trans)
qed

lemma tally_le_follow_links:
  assumes IH: "\<And>s r s'. test_page w n s = (r, s') \<Longrightarrow> tally_le s s'"
    and "follow_links w n origin ls s = (r, s')"
  shows "tally_le s s'"
  using assms(2)
proof (induction ls arbitrary: s)
  case Nil
  then show ?case by simp
next
  case (Cons l ls)
  from Cons.prems show ?case
  proof (cases rule: follow_links_Cons_cases)
    case stale
    then show ?thesis by simp
  next
    case skip
    then show ?thesis using Cons.IH by blast
  next
    case (nav_failed link_url)
    then show ?thesis by (simp add: tally_le_def)
  next
    case (seen link_url loaded)
    from Cons.IH [OF seen(5)] show ?thesis by (simp add: tally_le_def)
  next
    case (no_host link_url loaded)
    then show ?thesis by (simp add: tally_le_def)
  next
    case (other_host link_url loaded host)
    from Cons.IH [OF other_host(6)] show ?thesis by (simp add: tally_le_def)
  next
    case (tested link_url loaded host s3)
    from IH [OF tested(7)] Cons.IH [OF tested(8)] show ?thesis
      by (simp add: tally_le_def) (meson order_trans)
  next
    case (aborted link_url loaded host)
    from IH [OF aborted(7)] show ?thesis by (simp add: tally_le_def)
  qed
qed

lemma tally_le_test_page: "test_page w n s = (r, s') \<Longrightarrow> tally_le s s'"
proof (induction n arbitrary: s r s')
  case 0
  then show ?case by simp
next
  case (Suc n)
  from Suc.prems show ?case
  proof (cases rule: test_page_Suc_cases)
    case (raised e)
    then show ?thesis by (simp add: tally_le_def)
  next
    case single
    from tally_le_run_checks [OF single(1)] show ?thesis by (simp add: tally_le_def)
  next
    case (returned s2 s4)
    have "tally_le (s2\<lparr>visited_links := visited_links s @ [current_url (driver s)]\<rparr>) s4"
      by (rule tally_le_follow_links [OF _ returned(3)]) (rule Suc.IH)
    with tally_le_run_checks [OF returned(1)]
    show ?thesis using returned(5) by (simp add: tally_le_def) (meson order_trans)
  next
    case (cut s2)
    have "tally_le (s2\<lparr>visited_links := visited_links s @ [current_url (driver s)]\<rparr>) s'"
      by (rule tally_le_follow_links [OF _ cut(3)]) (rule Suc.IH)
    with tally_le_run_checks [OF cut(1)]
    show ?thesis by (simp add: tally_le_def) (meson order_trans)
  qed
qed

section \<open>The result of a run\<close>

lemma total_add_wrong: "total (wrong (add_wrong c s)) = Suc (total (wrong s))"
  by (cases c) (simp_all add: total_def categories_def add_wrong_def)

lemma total_init: "total (correct (init u d f)) = 0" "total (wrong (init u d f)) = 0"
  by (simp_all add: total_def categories_def init_def)

text \<open>
  Claim C4, as stated, fails on its last part: with one wrong finding and the required
  degree 1 the ratio 0 is below the threshold, and \<^verbatim>\<open>calculate_result\<close> raises
  instead of returning a value.
\<close>

theorem threshold_failure_raises: "calculate_result failing_tester = Inl TooManyErrors"
  by (simp add: calculate_result_def failing_tester_def total_add_wrong)
    (simp add: add_wrong_def total_init init_def)

text \<open>
  Claim C4, amended. Without findings \<^verbatim>\<open>calculate_result\<close> reports that nothing was
  found, without dividing. With findings it reports success exactly when the ratio of the
  correct findings to all findings reaches the required degree, and it raises the
  exception of too many errors exactly when the ratio is below it.
\<close>

theorem calculate_result_outcomes:
  "(total (correct s) + total (wrong s) = 0 \<longrightarrow> calculate_result s = Inr Nothing_found)
   \<and> (0 < total (correct s) + total (wrong s) \<longrightarrow>
        (calculate_result s = Inr Test_successful \<longleftrightarrow> required_degree s \<le> ratio s)
        \<and> (calculate_result s = Inl TooManyErrors \<longleftrightarrow> ratio s < required_degree s))"
  by (auto simp: calculate_result_def ratio_def Let_def)

theorem calculate_result_outcomes_witness:
  "total (correct (init ''http://a.test/'' 1 False)) + total (wrong (init ''http://a.test/'' 1 False)) = 0
   \<and> calculate_result (init ''http://a.test/'' 1 False) = Inr Nothing_found
   \<and> 0 < total (correct failing_tester) + total (wrong failing_tester)
   \<and> ratio failing_tester < required_degree failing_tester
   \<and> calculate_result failing_tester = Inl TooManyErrors"
proof -
  have z: "total (correct (init ''http://a.test/'' 1 False)) + total (wrong (init ''http://a.test/'' 1 False)) = 0"
    by (simp add: total_init)
  have p: "0 < total (correct failing_tester) + total (wrong failing_tester)"
    by (simp add: failing_tester_def total_add_wrong)
  have r: "ratio failing_tester < required_degree failing_tester"
    by (simp add: ratio_def failing_tester_def add_wrong_def init_def total_def categories_def)
  from z p r show ?thesis
    using calculate_result_outcomes [of "init ''http://a.test/'' 1 False"]
      calculate_result_outcomes [of failing_tester] by simp
qed

section \<open>Buttons\<close>

lemma located_list_nodes:
  "map snd (located_list i cs) = concat (map (\<lambda>c. c # map snd (located c)) cs)"
  by (induction cs arbitrary: i) (simp_all add: comp_def case_prod_unfold)

lemma descendants_Tag: "descendants (Tag n a cs) = concat (map (\<lambda>c. c # descendants c) cs)"
  by (simp add: descendants_def located_list_nodes)

lemma find_button_inputs_filter:
  "find_button_inputs pg =
     filter (\<lambda>d. is_tag d \<and> name d = ''input''
                  \<and> (attrs d ''type'' = Some ''submit'' \<or> attrs d ''type'' = Some ''button''
                      \<or> attrs d ''type'' = Some ''reset''))
       (descendants pg)"
  by (auto simp: find_button_inputs_def find_all_def intro: filter_cong)

lemma visible_text_find_texts: "visible_text e \<Longrightarrow> find_texts e \<noteq> []"
proof -
  assume "visible_text e"
  then obtain d where d: "d \<in> set (descendants e)" "shows_text d"
    by (auto simp: visible_text_def list_ex_iff)
  from d(2) have "\<not> is_tag d" by (cases d) (simp_all add: shows_text_def)
  with d(1) have "d \<in> set (find_texts e)" by (simp add: find_texts_def)
  then show ?thesis by auto
qed

lemma only_elements_find_texts: "only_elements e \<Longrightarrow> find_texts e = []"
  by (simp add: only_elements_def find_texts_def list_all_iff filter_empty_conv)

lemma button_passes: "has_title e \<or> visible_text e \<Longrightarrow> fst (button_verdict e)"
  using visible_text_find_texts [of e]
  by (auto simp: button_verdict_def has_title_def Let_def)

lemma button_fails: "only_elements e \<Longrightarrow> \<not> has_title e \<Longrightarrow> \<not> fst (button_verdict e)"
  by (auto simp: button_verdict_def has_title_def Let_def only_elements_find_texts)

text \<open>
  Claim C2, as stated, fails in two ways. A submit input without a value and with the
  title \<^verbatim>\<open>Send\<close> is recorded as wrong: the title of an input is not read. A button whose
  content is an image with an alternative text, and nothing else, is recorded as wrong:
  the content of a button is its text.
\<close>

theorem title_and_image_buttons_recorded_wrong:
  "attrs titled_submit ''type'' = Some ''submit''
   \<and> attrs titled_submit ''title'' = Some ''Send''
   \<and> correct (check_buttons (tester_on (document [titled_submit]))) empty_buttons = 0
   \<and> wrong (check_buttons (tester_on (document [titled_submit]))) empty_buttons = 1
   \<and> children image_button = [Tag ''img'' [''alt'' \<mapsto> ''Close''] []]
   \<and> correct (check_buttons (tester_on (document [image_button]))) empty_buttons = 0
   \<and> wrong (check_buttons (tester_on (document [image_button]))) empty_buttons = 1"
  by (simp add: check_buttons_def find_button_inputs_def find_all_def descendants_def document_def
      tester_on_def titled_submit_def image_button_def button_input_verdict_def button_verdict_def
      find_texts_def record_finding_def add_wrong_def add_correct_def init_def Let_def)

text \<open>
  Claim C2, amended. The elements judged are the \<^verbatim>\<open>input\<close> elements of the page whose
  type is submit, button or reset, and the \<^verbatim>\<open>button\<close> elements of the page, where the
  elements of a page are all the nodes below its root, at any depth. Such an input passes
  exactly when it has a non-empty \<^verbatim>\<open>value\<close> attribute; its title is not read. A button
  element passes when it has a non-empty \<^verbatim>\<open>title\<close> attribute or holds, at any depth, a
  text that is not blank; it fails when it has no such title and nothing but elements
  below it, among them the button without any content and the button that holds only an
  image. \<^verbatim>\<open>check_buttons\<close> adds one to the correct counter of the category for each
  judged element that passes and one to the wrong counter for each that does not.
  Nothing is said of a button whose only strings are blank or comments.
\<close>

theorem check_buttons_judgement:
  "find_button_inputs pg =
     filter (\<lambda>d. is_tag d \<and> name d = ''input''
                  \<and> (attrs d ''type'' = Some ''submit'' \<or> attrs d ''type'' = Some ''button''
                      \<or> attrs d ''type'' = Some ''reset''))
       (descendants pg)
   \<and> find_all ''button'' pg = filter (\<lambda>d. is_tag d \<and> name d = ''button'') (descendants pg)
   \<and> descendants (Tag n a cs) = concat (map (\<lambda>c. c # descendants c) cs)
   \<and> (fst (button_input_verdict e)
        \<longleftrightarrow> attrs e ''value'' \<noteq> None \<and> attrs e ''value'' \<noteq> Some [])
   \<and> (has_title e \<or> visible_text e \<longrightarrow> fst (button_verdict e))
   \<and> (only_elements e \<and> \<not> has_title e \<longrightarrow> \<not> fst (button_verdict e))
   \<and> correct (check_buttons s) empty_buttons =
       correct s empty_buttons
       + length (filter (\<lambda>d. fst (button_input_verdict d)) (find_button_inputs (page s)))
       + length (filter (\<lambda>d. fst (button_verdict d)) (find_all ''button'' (page s)))
   \<and> wrong (check_buttons s) empty_buttons =
       wrong s empty_buttons
       + length (filter (\<lambda>d. \<not> fst (button_input_verdict d)) (find_button_inputs (page s)))
       + length (filter (\<lambda>d. \<not> fst (button_verdict d)) (find_all ''button'' (page s)))"
proof -
  have 1: "fst (button_input_verdict e)
        \<longleftrightarrow> attrs e ''value'' \<noteq> None \<and> attrs e ''value'' \<noteq> Some []"
    by (simp add: button_input_verdict_def)
  have 3: "correct (check_buttons s) empty_buttons =
       correct s empty_buttons
       + length (filter (\<lambda>d. fst (button_input_verdict d)) (find_button_inputs (page s)))
       + length (filter (\<lambda>d. fst (button_verdict d)) (find_all ''button'' (page s)))"
    by (simp add: check_buttons_def Let_def fold_record_correct)
  have 4: "wrong (check_buttons s) empty_buttons =
       wrong s empty_buttons
       + length (filter (\<lambda>d. \<not> fst (button_input_verdict d)) (find_button_inputs (page s)))
       + length (filter (\<lambda>d. \<not> fst (button_verdict d)) (find_all ''button'' (page s)))"
    by (simp add: check_buttons_def Let_def fold_record_wrong)
  have 5: "find_all ''button'' pg = filter (\<lambda>d. is_tag d \<and> name d = ''button'') (descendants pg)"
    by (simp add: find_all_def)
  from 1 3 4 5 find_button_inputs_filter [of pg] descendants_Tag [of n a cs]
    button_passes [of e] button_fails [of e]
  show ?thesis by blast
qed

theorem check_buttons_judgement_witness:
  "has_title titled_button \<and> visible_text text_button
   \<and> fst (button_verdict titled_button) \<and> fst (button_verdict text_button)
   \<and> only_elements image_button \<and> \<not> has_title image_button
   \<and> \<not> fst (button_verdict image_button)
   \<and> only_elements (Tag ''button'' Map.empty []) \<and> \<not> has_title (Tag ''button'' Map.empty [])
   \<and> \<not> fst (button_verdict (Tag ''button'' Map.empty []))
   \<and> \<not> fst (button_input_verdict titled_submit)
   \<and> find_button_inputs (document [titled_submit, text_button]) = [titled_submit]
   \<and> find_all ''button'' (document [titled_submit, text_button]) = [text_button]
   \<and> correct (check_buttons (tester_on (document [titled_submit, text_button]))) empty_buttons = 1
   \<and> wrong (check_buttons (tester_on (document [titled_submit, text_button]))) empty_buttons = 1"
proof -
  let ?pg = "document [titled_submit, text_button]"
  have d: "descendants ?pg =
      [Tag ''html'' [''lang'' \<mapsto> ''en''] [Tag ''body'' Map.empty [titled_submit, text_button]],
       Tag ''body'' Map.empty [titled_submit, text_button],
       titled_submit, text_button, NavigableString ''Save'']"
    by (simp add: descendants_def document_def titled_submit_def text_button_def)
  have a: "has_title titled_button" "visible_text text_button"
    "only_elements image_button" "\<not> has_title image_button"
    "only_elements (Tag ''button'' Map.empty [])" "\<not> has_title (Tag ''button'' Map.empty [])"
    "attrs titled_submit ''value'' = None"
    by (simp_all add: has_title_def titled_button_def visible_text_def text_button_def
        only_elements_def image_button_def
        descendants_def shows_text_def strip_def isspace_def titled_submit_def)
  have f: "find_button_inputs ?pg = [titled_submit]" "find_all ''button'' ?pg = [text_button]"
    using check_buttons_judgement [of ?pg]
    by (simp_all add: d) (simp_all add: titled_submit_def text_button_def)
  have c: "correct (tester_on ?pg) empty_buttons = 0" "wrong (tester_on ?pg) empty_buttons = 0"
    "page (tester_on ?pg) = ?pg"
    by (simp_all add: tester_on_def init_def)
  have v: "fst (button_verdict text_button)" "\<not> fst (button_input_verdict titled_submit)"
    "fst (button_verdict titled_button)" "\<not> fst (button_verdict (Tag ''button'' Map.empty []))"
    "\<not> fst (button_verdict image_button)"
    using a check_buttons_judgement [where e = text_button]
      check_buttons_judgement [where e = titled_submit]
      check_buttons_judgement [where e = titled_button]
      check_buttons_judgement [where e = "Tag ''button'' Map.empty []"]
      check_buttons_judgement [where e = image_button]
    by simp_all
  show ?thesis
    using check_buttons_judgement [where s = "tester_on ?pg"] a f c v
    by simp
qed

section \<open>Labels of inputs\<close>

lemma label_correct_fold:
  "fold (\<lambda>label_element found.
             if attrs label_element ''for'' \<noteq> None \<and> attrs e ''id'' \<noteq> None
                \<and> attrs label_element ''for'' = attrs e ''id''
             then True else found) ls acc
   \<longleftrightarrow> acc \<or> label_for ls e"
proof (induction ls arbitrary: acc)
  case Nil
  show ?case by (simp add: label_for_def)
next
  case (Cons lab ls)
  show ?case
    unfolding fold_Cons comp_def Cons.IH
    by (auto simp: label_for_def)
qed

lemma label_correct_iff: "label_correct ls e \<longleftrightarrow> label_for ls e"
  unfolding label_correct_def label_correct_fold by simp

lemma needs_label_iff:
  "needs_label e \<longleftrightarrow>
     attrs e ''type'' \<noteq> Some ''hidden'' \<and> attrs e ''type'' \<noteq> Some ''submit''
     \<and> attrs e ''type'' \<noteq> Some ''reset'' \<and> attrs e ''type'' \<noteq> Some ''button''"
  by (auto simp: needs_label_def)

lemma verdict_image: "image_with_alt e \<Longrightarrow>
    input_label_verdict pg ls e = (True, ''Input of type image labelled with alt text'')"
  by (auto simp: input_label_verdict_def image_with_alt_def)

lemma verdict_direct: "\<not> image_with_alt e \<Longrightarrow> direct_label e \<Longrightarrow>
    input_label_verdict pg ls e = (True, ''Input labelled with aria-label attribute'')"
  by (auto simp: input_label_verdict_def image_with_alt_def direct_label_def)

lemma verdict_reference:
  assumes "\<not> image_with_alt e" "\<not> direct_label e" "label_reference e = Some ident"
  shows "input_label_verdict pg ls e =
     (case find_by_id ident pg of
        None \<Rightarrow> (False, ''Input labelled with aria-labelledby attribute, but related label does not exist'')
      | Some lab \<Rightarrow>
          if find_texts lab = []
          then (False, ''Input labelled with aria-labelledby attribute, but related label has no text'')
          else (True, ''Input labelled with aria-labelledby attribute''))"
proof -
  from assms(3) have r: "attrs e ''aria-labelledby'' = Some ident" "ident \<noteq> []"
    by (auto simp: label_reference_def split: option.splits if_splits)
  from assms(1) have i: "\<not> (attrs e ''type'' = Some ''image''
         \<and> attrs e ''alt'' \<noteq> None \<and> attrs e ''alt'' \<noteq> Some [])"
    by (auto simp: image_with_alt_def)
  from assms(2) have d: "\<not> (attrs e ''aria-label'' \<noteq> None \<and> attrs e ''aria-label'' \<noteq> Some [])"
    by (auto simp: direct_label_def)
  show ?thesis
    unfolding input_label_verdict_def using r i d by (simp split: option.splits)
qed

lemma verdict_label:
  assumes "\<not> image_with_alt e" "\<not> direct_label e" "label_reference e = None"
  shows "input_label_verdict pg ls e =
     (if label_for ls e then (True, ''Input labelled with label element'')
      else (False, ''Input not labelled at all''))"
proof -
  from assms(3) have r: "\<not> (attrs e ''aria-labelledby'' \<noteq> None
      \<and> attrs e ''aria-labelledby'' \<noteq> Some [])"
    by (auto simp: label_reference_def split: option.splits if_splits)
  from assms(1) have i: "\<not> (attrs e ''type'' = Some ''image''
         \<and> attrs e ''alt'' \<noteq> None \<and> attrs e ''alt'' \<noteq> Some [])"
    by (auto simp: image_with_alt_def)
  from assms(2) have d: "\<not> (attrs e ''aria-label'' \<noteq> None \<and> attrs e ''aria-label'' \<noteq> Some [])"
    by (auto simp: direct_label_def)
  show ?thesis
    unfolding input_label_verdict_def using r i d by (auto simp: label_correct_iff)
qed

lemma verdict_missing:
  assumes "\<not> image_with_alt e" "\<not> direct_label e" "label_reference e = Some ident"
    "find_by_id ident pg = None"
  shows "input_label_verdict pg ls e =
     (False, ''Input labelled with aria-labelledby attribute, but related label does not exist'')"
  using verdict_reference [OF assms(1-3), of pg ls] assms(4) by simp

lemma verdict_empty:
  assumes "\<not> image_with_alt e" "\<not> direct_label e" "label_reference e = Some ident"
    "find_by_id ident pg = Some lab" "only_elements lab"
  shows "input_label_verdict pg ls e =
     (False, ''Input labelled with aria-labelledby attribute, but related label has no text'')"
  using verdict_reference [OF assms(1-3), of pg ls] assms(4) only_elements_find_texts [OF assms(5)]
  by simp

lemma verdict_referenced:
  assumes "\<not> image_with_alt e" "\<not> direct_label e" "label_reference e = Some ident"
    "find_by_id ident pg = Some lab" "visible_text lab"
  shows "input_label_verdict pg ls e = (True, ''Input labelled with aria-labelledby attribute'')"
  using verdict_reference [OF assms(1-3), of pg ls] assms(4) visible_text_find_texts [OF assms(5)]
  by simp

text \<open>
  Claim C5, as stated, fails in two ways. An input whose \<^verbatim>\<open>aria-labelledby\<close> names an
  element that does not exist is recorded as wrong although a label element with a
  matching \<^verbatim>\<open>for\<close> stands in the document: the four ways are not alternatives of which
  one must hold, the first one that is present decides alone. And only \<^verbatim>\<open>input\<close>
  elements are judged: on a page whose only form control is a \<^verbatim>\<open>textarea\<close> without any
  label nothing is recorded.
\<close>

theorem dangling_reference_beats_label:
  "needs_label dangling_input
   \<and> find_all ''input'' (document [dangling_input, name_label]) = [dangling_input]
   \<and> find_all ''label'' (document [dangling_input, name_label]) = [name_label]
   \<and> label_for [name_label] dangling_input
   \<and> input_label_verdict (document [dangling_input, name_label]) [name_label] dangling_input
       = (False, ''Input labelled with aria-labelledby attribute, but related label does not exist'')
   \<and> correct (check_input_labels (tester_on (document [dangling_input, name_label]))) input_labels = 0
   \<and> wrong (check_input_labels (tester_on (document [dangling_input, name_label]))) input_labels = 1
   \<and> correct (check_input_labels (tester_on (document [plain_textarea]))) input_labels = 0
   \<and> wrong (check_input_labels (tester_on (document [plain_textarea]))) input_labels = 0"
  by (simp add: check_input_labels_def find_all_def find_by_id_def descendants_def document_def
      tester_on_def dangling_input_def name_label_def plain_textarea_def needs_label_def
      label_for_def input_label_verdict_def record_finding_def add_wrong_def add_correct_def
      init_def Let_def)

text \<open>
  Claim C5, amended. The elements judged are the \<^verbatim>\<open>input\<close> elements of the page that are
  not of type hidden, submit, reset or button; the label elements are the \<^verbatim>\<open>label\<close>
  elements of the page, and the element a reference names is the first element of the
  page with that identifier. The four ways of labelling are tried in their order and the
  first that is present decides alone: an image input with an alternative text passes;
  else an input with a direct label attribute passes; else an input with a reference
  fails when no element has the identifier, fails with another reason when the element
  named has nothing but elements below it, and passes when that element holds a text that
  is not blank, and in none of these cases the label elements are looked at; else the
  input passes exactly when a label element has a \<^verbatim>\<open>for\<close> equal to its identifier.
  \<^verbatim>\<open>check_input_labels\<close> adds one to the correct counter of the category for each
  judged input that passes and one to the wrong counter for each that does not. Nothing
  is said of a reference to an element whose only strings are blank or comments.
\<close>

theorem input_label_first_present_decides:
  "find_all nm pg = filter (\<lambda>d. is_tag d \<and> name d = nm) (descendants pg)
   \<and> find_by_id ident pg = List.find (\<lambda>d. is_tag d \<and> attrs d ''id'' = Some ident) (descendants pg)
   \<and> descendants (Tag n a cs) = concat (map (\<lambda>c. c # descendants c) cs)
   \<and> (needs_label e \<longleftrightarrow>
        attrs e ''type'' \<noteq> Some ''hidden'' \<and> attrs e ''type'' \<noteq> Some ''submit''
        \<and> attrs e ''type'' \<noteq> Some ''reset'' \<and> attrs e ''type'' \<noteq> Some ''button'')
   \<and> (image_with_alt e \<longrightarrow>
      input_label_verdict pg ls e = (True, ''Input of type image labelled with alt text''))
   \<and> (\<not> image_with_alt e \<and> direct_label e \<longrightarrow>
      input_label_verdict pg ls e = (True, ''Input labelled with aria-label attribute''))
   \<and> (\<not> image_with_alt e \<and> \<not> direct_label e \<and> label_reference e = Some ident
        \<and> find_by_id ident pg = None \<longrightarrow>
      input_label_verdict pg ls e =
        (False, ''Input labelled with aria-labelledby attribute, but related label does not exist''))
   \<and> (\<not> image_with_alt e \<and> \<not> direct_label e \<and> label_reference e = Some ident
        \<and> find_by_id ident pg = Some lab \<and> only_elements lab \<longrightarrow>
      input_label_verdict pg ls e =
        (False, ''Input labelled with aria-labelledby attribute, but related label has no text''))
   \<and> (\<not> image_with_alt e \<and> \<not> direct_label e \<and> label_reference e = Some ident
        \<and> find_by_id ident pg = Some lab \<and> visible_text lab \<longrightarrow>
      input_label_verdict pg ls e = (True, ''Input labelled with aria-labelledby attribute''))
   \<and> (\<not> image_with_alt e \<and> \<not> direct_label e \<and> label_reference e = None \<longrightarrow>
      input_label_verdict pg ls e =
        (if label_for ls e then (True, ''Input labelled with label element'')
         else (False, ''Input not labelled at all'')))
   \<and> ''Input labelled with aria-labelledby attribute, but related label does not exist''
       \<noteq> ''Input labelled with aria-labelledby attribute, but related label has no text''
   \<and> correct (check_input_labels s) input_labels =
       correct s input_labels
       + length (filter (\<lambda>d. fst (input_label_verdict (page s) (find_all ''label'' (page s)) d))
                   (filter needs_label (find_all ''input'' (page s))))
   \<and> wrong (check_input_labels s) input_labels =
       wrong s input_labels
       + length (filter (\<lambda>d. \<not> fst (input_label_verdict (page s) (find_all ''label'' (page s)) d))
                   (filter needs_label (find_all ''input'' (page s))))"
proof -
  have 1: "correct (check_input_labels s) input_labels =
       correct s input_labels
       + length (filter (\<lambda>d. fst (input_label_verdict (page s) (find_all ''label'' (page s)) d))
                   (filter needs_label (find_all ''input'' (page s))))"
    by (simp add: check_input_labels_def Let_def fold_record_correct)
  have 2: "wrong (check_input_labels s) input_labels =
       wrong s input_labels
       + length (filter (\<lambda>d. \<not> fst (input_label_verdict (page s) (find_all ''label'' (page s)) d))
                   (filter needs_label (find_all ''input'' (page s))))"
    by (simp add: check_input_labels_def Let_def fold_record_wrong)
  have 3: "''Input labelled with aria-labelledby attribute, but related label does not exist''
       \<noteq> ''Input labelled with aria-labelledby attribute, but related label has no text''"
    by simp
  have 4: "find_all nm pg = filter (\<lambda>d. is_tag d \<and> name d = nm) (descendants pg)"
    "find_by_id ident pg = List.find (\<lambda>d. is_tag d \<and> attrs d ''id'' = Some ident) (descendants pg)"
    by (simp_all add: find_all_def find_by_id_def)
  have 5: "image_with_alt e \<longrightarrow>
      input_label_verdict pg ls e = (True, ''Input of type image labelled with alt text'')"
    "\<not> image_with_alt e \<and> direct_label e \<longrightarrow>
      input_label_verdict pg ls e = (True, ''Input labelled with aria-label attribute'')"
    using verdict_image [of e pg ls] verdict_direct [of e pg ls] by blast+
  have 6: "\<not> image_with_alt e \<and> \<not> direct_label e \<and> label_reference e = Some ident
        \<and> find_by_id ident pg = None \<longrightarrow>
      input_label_verdict pg ls e =
        (False, ''Input labelled with aria-labelledby attribute, but related label does not exist'')"
    using verdict_missing [of e ident pg ls] by blast
  have 7: "\<not> image_with_alt e \<and> \<not> direct_label e \<and> label_reference e = Some ident
        \<and> find_by_id ident pg = Some lab \<and> only_elements lab \<longrightarrow>
      input_label_verdict pg ls e =
        (False, ''Input labelled with aria-labelledby attribute, but related label has no text'')"
    using verdict_empty [of e ident pg lab ls] by blast
  have 8: "\<not> image_with_alt e \<and> \<not> direct_label e \<and> label_reference e = Some ident
        \<and> find_by_id ident pg = Some lab \<and> visible_text lab \<longrightarrow>
      input_label_verdict pg ls e = (True, ''Input labelled with aria-labelledby attribute'')"
    using verdict_referenced [of e ident pg lab ls] by blast
  have 9: "\<not> image_with_alt e \<and> \<not> direct_label e \<and> label_reference e = None \<longrightarrow>
      input_label_verdict pg ls e =
        (if label_for ls e then (True, ''Input labelled with label element'')
         else (False, ''Input not labelled at all''))"
    using verdict_label [of e pg ls] by blast
  show ?thesis
    using 4 descendants_Tag [of n a cs] needs_label_iff [of e] 5 6 7 8 9 3 1 2
    by (intro conjI) assumption+
qed

theorem input_label_first_present_decides_witness:
  "\<not> image_with_alt referencing_input \<and> \<not> direct_label referencing_input
   \<and> label_reference referencing_input = Some ''x''
   \<and> find_by_id ''x'' (document [referencing_input, empty_span]) = Some empty_span
   \<and> only_elements empty_span
   \<and> input_label_verdict (document [referencing_input, empty_span]) [] referencing_input
       = (False, ''Input labelled with aria-labelledby attribute, but related label has no text'')
   \<and> find_by_id ''x'' (document [referencing_input]) = None
   \<and> input_label_verdict (document [referencing_input]) [] referencing_input
       = (False, ''Input labelled with aria-labelledby attribute, but related label does not exist'')
   \<and> find_by_id ''x'' (document [referencing_input, named_span]) = Some named_span
   \<and> visible_text named_span
   \<and> input_label_verdict (document [referencing_input, named_span]) [] referencing_input
       = (True, ''Input labelled with aria-labelledby attribute'')
   \<and> label_reference (Tag ''input'' [''id'' \<mapsto> ''a''] []) = None
   \<and> label_for [name_label] (Tag ''input'' [''id'' \<mapsto> ''a''] [])
   \<and> input_label_verdict (document []) [name_label] (Tag ''input'' [''id'' \<mapsto> ''a''] [])
       = (True, ''Input labelled with label element'')"
proof -
  let ?plain = "Tag ''input'' [''id'' \<mapsto> ''a''] []"
  have a: "\<not> image_with_alt referencing_input" "\<not> direct_label referencing_input"
    "label_reference referencing_input = Some ''x''"
    "\<not> image_with_alt ?plain" "\<not> direct_label ?plain" "label_reference ?plain = None"
    "label_for [name_label] ?plain"
    by (simp_all add: image_with_alt_def direct_label_def label_reference_def referencing_input_def
        label_for_def name_label_def)
  have b: "find_by_id ''x'' (document [referencing_input, empty_span]) = Some empty_span"
    "find_by_id ''x'' (document [referencing_input]) = None"
    "find_by_id ''x'' (document [referencing_input, named_span]) = Some named_span"
    by (simp_all add: find_by_id_def descendants_def document_def referencing_input_def
        empty_span_def named_span_def)
  have c: "only_elements empty_span" "visible_text named_span"
    by (simp_all add: only_elements_def visible_text_def shows_text_def strip_def isspace_def
        descendants_def empty_span_def named_span_def)
  show ?thesis
    using a b c
      input_label_first_present_decides [where e = referencing_input
        and pg = "document [referencing_input, empty_span]" and ls = "[]" and ident = "''x''"
        and lab = empty_span]
      input_label_first_present_decides [where e = referencing_input
        and pg = "document [referencing_input]" and ls = "[]" and ident = "''x''"]
      input_label_first_present_decides [where e = referencing_input
        and pg = "document [referencing_input, named_span]" and ls = "[]" and ident = "''x''"
        and lab = named_span]
      input_label_first_present_decides [where e = ?plain and pg = "document []"
        and ls = "[name_label]"]
    by simp
qed

section \<open>The effective background\<close>

lemma parent_snoc: "parent (xs @ [x]) = Some xs"
  by (cases xs) simp_all

lemma element_chain_Nil: "element_chain [] = [[]]"
  by (simp add: element_chain_def)

lemma element_chain_snoc: "element_chain (xs @ [x]) = (xs @ [x]) # element_chain xs"
  by (simp add: element_chain_def)

lemma first_painted_Cons:
  "first_painted (c # cs) = (if 0 < alpha c then c else first_painted cs)"
  by (simp add: first_painted_def)

lemma first_painted_Nil: "first_painted [] = (255, 255, 255, 1)"
  by (simp add: first_painted_def)

lemma map_filter_Cons_Some:
  "f x = Some y \<Longrightarrow> List.map_filter f (x # xs) = y # List.map_filter f xs"
  by (simp add: List.map_filter_def)

text \<open>
  Claim C6. When the browser finds every element of the chain and no alpha is negative,
  \<^verbatim>\<open>get_background_color\<close> returns the background of the first element of the chain,
  the element itself included, whose alpha is above zero, and opaque white when there is
  no such element.
\<close>

theorem effective_background_first_painted:
  assumes "\<forall>r \<in> set (element_chain element). \<exists>c. background_of d pg r = Some c \<and> 0 \<le> alpha c"
  shows "get_background_color d pg (Some element) =
     Inr (first_painted (List.map_filter (background_of d pg) (element_chain element)))"
  using assms
proof (induction element rule: rev_induct)
  case Nil
  then obtain c where c: "background_of d pg [] = Some c" "0 \<le> alpha c"
    by (auto simp: element_chain_Nil)
  then obtain el where el: "find_element d (xpath_soup pg []) = Some el"
    "convert_to_rgba_value (background_color el) = c"
    by (auto simp: background_of_def)
  from c have "0 < alpha c \<longleftrightarrow> alpha c \<noteq> 0" by auto
  then show ?case
    using c el
    by (simp add: element_chain_Nil map_filter_Cons_Some first_painted_Cons first_painted_Nil)
next
  case (snoc x xs)
  then obtain c where c: "background_of d pg (xs @ [x]) = Some c" "0 \<le> alpha c"
    by (auto simp: element_chain_snoc)
  then obtain el where el: "find_element d (xpath_soup pg (xs @ [x])) = Some el"
    "convert_to_rgba_value (background_color el) = c"
    by (auto simp: background_of_def)
  from snoc.prems have "\<forall>r \<in> set (element_chain xs). \<exists>c. background_of d pg r = Some c \<and> 0 \<le> alpha c"
    by (simp add: element_chain_snoc)
  moreover from c have "0 < alpha c \<longleftrightarrow> alpha c \<noteq> 0" by auto
  ultimately show ?case
    using c el snoc.IH
    by (simp add: element_chain_snoc map_filter_Cons_Some first_painted_Cons parent_snoc)
qed

theorem effective_background_first_painted_witness:
  "element_chain [0, 0] = [[0, 0], [0], []]
   \<and> List.map_filter (background_of painted_html_site (document [])) (element_chain [0, 0])
       = [(0, 0, 0, 0), (10, 20, 30, 1), (10, 20, 30, 1)]
   \<and> get_background_color painted_html_site (document []) (Some [0, 0]) = Inr (10, 20, 30, 1)"
proof -
  have ch: "element_chain [0, 0] = [[0, 0], [0], []]"
    by (simp add: element_chain_def)
  have x: "xpath_soup (document []) [0, 0] = [(''html'', None), (''body'', None)]"
    "xpath_soup (document []) [0] = [(''html'', None)]"
    "xpath_soup (document []) [] = [(''html'', None)]"
    by (simp_all add: xpath_soup_def document_def find_children_def Let_def)
  have b: "background_of painted_html_site (document []) [0, 0] = Some (0, 0, 0, 0)"
    "background_of painted_html_site (document []) [0] = Some (10, 20, 30, 1)"
    "background_of painted_html_site (document []) [] = Some (10, 20, 30, 1)"
    by (simp_all add: background_of_def x painted_html_site_def transparent_style_def)
  have h: "\<forall>r \<in> set (element_chain [0, 0]).
      \<exists>c. background_of painted_html_site (document []) r = Some c \<and> 0 \<le> alpha c"
    by (simp add: ch b alpha_def)
  have m: "List.map_filter (background_of painted_html_site (document [])) (element_chain [0, 0])
       = [(0, 0, 0, 0), (10, 20, 30, 1), (10, 20, 30, 1)]"
    by (simp add: ch b)
  have "first_painted [(0, 0, 0, 0), (10, 20, 30, 1), (10, 20, 30, 1)] = (10, 20, 30, 1)"
    by (simp add: first_painted_def alpha_def)
  with ch m show ?thesis
    using effective_background_first_painted [OF h] by simp
qed

section \<open>A crawl over two hosts\<close>

lemma driver_record_finding [simp]: "driver (record_finding c f s) = driver s"
  by (simp add: driver_def)

lemma run_checks_page_with_link:
  assumes "page s = page_with_link t" "windows s ! current_window s = site_with_link a t"
  shows "run_checks s = Inr (checked_link_page t s)"
  using assms
  by (simp add: run_checks_def check_doc_language_def check_alt_texts_def check_input_labels_def
      check_buttons_def check_links_def check_color_contrast_def find_first_def find_all_def
      find_button_inputs_def descendants_def doc_language_verdict_def link_verdict_def find_texts_def
      find_children_def all_alt_texts_set_def document_def driver_def checked_link_page_def
      extract_texts_def invisible_element_def strip_def isspace_def
      contrast_verdict_def site_with_link_def transparent_style_def alpha_def Let_def
     xpath_soup_def  large_text_def int_of_digits_def isdigit_def get_contrast_ratio_def luminance_def
     red_def green_def blue_def convert_zero convert_255 sublist_code(3) page_with_link_def)

lemma checked_link_page_fields [simp]:
  "url (checked_link_page t s) = url s"
  "follow (checked_link_page t s) = follow s"
  "visited_links (checked_link_page t s) = visited_links s"
  "windows (checked_link_page t s) = windows s"
  "current_window (checked_link_page t s) = current_window s"
  "audited (checked_link_page t s) = audited s"
  "page (checked_link_page t s) = page_with_link t"
  by (simp_all add: checked_link_page_def)

lemma page_source_site [simp]: "page_source (site_with_link a t) = page_with_link t"
  "current_url (site_with_link a t) = a"
  "find_links (site_with_link a t) = [\<lparr>is_displayed = True, href = Some t\<rparr>]"
  by (simp_all add: site_with_link_def)

text \<open>
  Claim C1, as stated, fails: the start page \<^verbatim>\<open>http://a.test/\<close> has a visible link to
  \<^verbatim>\<open>http://b.test/\<close>, whose host is not the configured one. The crawl opens a second
  window and loads that address in it; it does not test the page.
\<close>

theorem cross_origin_link_opened:
  "hostname cross_origin_web ''http://a.test/'' = Some ''a.test''
   \<and> hostname cross_origin_web ''http://b.test/'' = Some ''b.test''
   \<and> find_links (site_with_link ''http://a.test/'' ''http://b.test/'')
       = [\<lparr>is_displayed = True, href = Some ''http://b.test/''\<rparr>]
   \<and> fst (crawl cross_origin_web (Suc (Suc 0)) ''http://a.test/'' 1 True) = Returned
   \<and> map current_url (windows (snd (crawl cross_origin_web (Suc (Suc 0)) ''http://a.test/'' 1 True)))
       = [''http://a.test/'', ''http://b.test/'']
   \<and> audited (snd (crawl cross_origin_web (Suc (Suc 0)) ''http://a.test/'' 1 True))
       = [''http://a.test/'']"
  by (simp add: crawl_def start_driver_def cross_origin_web_def web_def host_of_def init_def
      run_checks_page_with_link driver_def Let_def absolute_urljoin_def
      open_window_def navigate_def switch_to_previous_def sublist_code(3))

section \<open>Only pages of the host are tested\<close>

lemma linked_from_refl: "linked_from w s s"
  by (simp add: linked_from_def)

lemma linked_from_trans: "linked_from w s t \<Longrightarrow> linked_from w t u \<Longrightarrow> linked_from w s u"
  by (auto simp: linked_from_def)

lemma linked_from_same: "url s' = url s \<Longrightarrow> audited s' = audited s \<Longrightarrow> linked_from w s s'"
  by (simp add: linked_from_def)

lemma linked_from_tested:
  "tested_from w x s s' \<Longrightarrow> on_host w (url s) x \<Longrightarrow> linked_from w s s'"
  by (auto simp: tested_from_def linked_from_def)

lemma tested_from_after:
  "url t = url s \<Longrightarrow> audited t = audited s @ [here] \<Longrightarrow> linked_from w t u \<Longrightarrow>
     tested_from w here s u"
  by (auto simp: tested_from_def linked_from_def)

lemma linked_from_follow_links:
  assumes IH: "\<And>s r s'. test_page w n s = (r, s') \<Longrightarrow> tested_from w (current_url (driver s)) s s'"
    and "follow_links w n origin ls s = (r, s')"
  shows "linked_from w s s'"
  using assms(2)
proof (induction ls arbitrary: s)
  case Nil
  then show ?case by (simp add: linked_from_refl)
next
  case (Cons l ls)
  from Cons.prems show ?case
  proof (cases rule: follow_links_Cons_cases)
    case stale
    then show ?thesis by (simp add: linked_from_refl)
  next
    case skip
    then show ?thesis using Cons.IH by blast
  next
    case (nav_failed link_url)
    then show ?thesis by (simp add: linked_from_same)
  next
    case (seen link_url loaded)
    have "linked_from w s (switch_to_previous (navigate (open_window s) loaded))"
      by (simp add: linked_from_same)
    with Cons.IH [OF seen(5)] show ?thesis by (blast intro: linked_from_trans)
  next
    case (no_host link_url loaded)
    then show ?thesis by (simp add: linked_from_same)
  next
    case (other_host link_url loaded host)
    have "linked_from w s (switch_to_previous (navigate (open_window s) loaded))"
      by (simp add: linked_from_same)
    with Cons.IH [OF other_host(6)] show ?thesis by (blast intro: linked_from_trans)
  next
    case (tested link_url loaded host s3)
    have h: "on_host w (url (navigate (open_window s) loaded)) (current_url loaded)"
      using tested(4,5) by (simp add: on_host_def)
    have o: "linked_from w s (navigate (open_window s) loaded)"
      by (simp add: linked_from_same)
    from IH [OF tested(7)]
    have "tested_from w (current_url loaded) (navigate (open_window s) loaded) s3" by simp
    from linked_from_tested [OF this h]
    have "linked_from w (navigate (open_window s) loaded) s3" .
    with o Cons.IH [OF tested(8)] show ?thesis by (blast intro: linked_from_trans)
  next
    case (aborted link_url loaded host)
    have h: "on_host w (url (navigate (open_window s) loaded)) (current_url loaded)"
      using aborted(4,5) by (simp add: on_host_def)
    have o: "linked_from w s (navigate (open_window s) loaded)"
      by (simp add: linked_from_same)
    from IH [OF aborted(7)]
    have "tested_from w (current_url loaded) (navigate (open_window s) loaded) s'" by simp
    from linked_from_tested [OF this h]
    have "linked_from w (navigate (open_window s) loaded) s'" .
    with o show ?thesis by (blast intro: linked_from_trans)
  qed
qed

lemma tested_from_test_page:
  "test_page w n s = (r, s') \<Longrightarrow> tested_from w (current_url (driver s)) s s'"
proof (induction n arbitrary: s r s')
  case 0
  then show ?case by (simp add: tested_from_def)
next
  case (Suc n)
  let ?here = "current_url (driver s)"
  let ?s1 = "s\<lparr>page := page_source (driver s), audited := audited s @ [?here]\<rparr>"
  from Suc.prems show ?case
  proof (cases rule: test_page_Suc_cases)
    case (raised e)
    then show ?thesis by (simp add: tested_from_def)
  next
    case single
    from run_checks_same [OF single(1)] show ?thesis
      by (simp add: same_crawl_def tested_from_def)
  next
    case (returned s2 s4)
    let ?s3 = "s2\<lparr>visited_links := visited_links s @ [?here]\<rparr>"
    from run_checks_same [OF returned(1)]
    have 3: "url ?s3 = url s" "audited ?s3 = audited s @ [?here]"
      by (simp_all add: same_crawl_def)
    have "linked_from w ?s3 s4"
      by (rule linked_from_follow_links [OF _ returned(3)]) (rule Suc.IH)
    then have "linked_from w ?s3 s'"
      using returned(5) by (simp add: linked_from_def)
    from tested_from_after [OF 3 this] show ?thesis .
  next
    case (cut s2)
    let ?s3 = "s2\<lparr>visited_links := visited_links s @ [?here]\<rparr>"
    from run_checks_same [OF cut(1)]
    have 3: "url ?s3 = url s" "audited ?s3 = audited s @ [?here]"
      by (simp_all add: same_crawl_def)
    have "linked_from w ?s3 s'"
      by (rule linked_from_follow_links [OF _ cut(3)]) (rule Suc.IH)
    from tested_from_after [OF 3 this] show ?thesis .
  qed
qed

lemma crawl_children_on_host:
  assumes "crawl w n u degree fol = (r, s')" "x \<in> set (tl (audited s'))"
  shows "on_host w u x"
proof (cases "get w u")
  case None
  with assms show ?thesis by (auto simp: crawl_def start_driver_def init_def)
next
  case (Some root)
  let ?s = "(init u degree fol)\<lparr>windows := [root], current_window := 0, page := page_source root\<rparr>"
  from assms(1) Some have "test_page w n ?s = (r, s')"
    by (simp add: crawl_def start_driver_def init_def)
  from tested_from_test_page [OF this]
  have "tested_from w (current_url root) ?s s'" by (simp add: driver_def)
  with assms(2) show ?thesis
    by (auto simp: tested_from_def init_def list_all_iff)
qed

text \<open>
  Claim C1, amended. A link is loaded in a new window before its host is looked at, so a
  window can be opened and navigated for a link to another host; but the page loaded for
  it is never tested. The list \<open>audited\<close> gets an entry at the start of every call of
  \<^verbatim>\<open>test_page\<close>, before the checks run, and its first entry is the page of the configured
  address; the entries after it are the pages tested for links. When the host of an
  address is not the host of the configured address, and the configured host name does
  not occur in the address, no page that the browser reports under that address is tested
  for a link. This holds for every bound on the depth and for every way the crawl ends.
  The second condition sets aside the addresses of another host in which the configured
  host name occurs as text: the source looks for the host name anywhere in the address,
  and on those addresses this is not the comparison of the hosts.
\<close>

theorem pages_of_another_host_never_tested:
  assumes "crawl w n u degree fol = (r, s')" "hostname w u = Some host"
    and "hostname w x \<noteq> Some host" "\<not> sublist host x"
  shows "x \<notin> set (tl (audited s'))"
  using crawl_children_on_host [OF assms(1), of x] assms(2,4)
  by (auto simp: on_host_def)

theorem pages_of_another_host_never_tested_witness:
  "hostname cross_origin_web ''http://a.test/'' = Some ''a.test''
   \<and> hostname cross_origin_web ''http://b.test/'' \<noteq> Some ''a.test''
   \<and> \<not> sublist ''a.test'' ''http://b.test/''
   \<and> ''http://b.test/''
       \<notin> set (tl (audited (snd (crawl cross_origin_web (Suc (Suc 0)) ''http://a.test/'' 1 True))))"
  using pages_of_another_host_never_tested
    [OF surjective_pairing, where w = cross_origin_web and host = "''a.test''"
      and x = "''http://b.test/''" and u = "''http://a.test/''" and n = "Suc (Suc 0)"
      and degree = 1 and fol = True]
  by (simp add: cross_origin_web_def web_def host_of_def sublist_code(3))

text \<open>
  The addresses that the amended claim C1 sets aside: the start page links to
  \<^verbatim>\<open>http://b.test/a.test\<close>, an address of the host \<^verbatim>\<open>b.test\<close>; the configured host name
  occurs in its path, and the page is tested.
\<close>

lemma host_name_in_path_tested:
  "hostname host_in_path_web ''http://a.test/'' = Some ''a.test''
   \<and> hostname host_in_path_web ''http://b.test/a.test'' = Some ''b.test''
   \<and> audited (snd (crawl host_in_path_web (Suc (Suc 0)) ''http://a.test/'' 1 True))
       = [''http://a.test/'', ''http://b.test/a.test'']"
  by (simp add: crawl_def start_driver_def host_in_path_web_def web_def host_of_def init_def
      run_checks_page_with_link driver_def Let_def absolute_urljoin_def
      open_window_def navigate_def switch_to_previous_def sublist_code)

section \<open>No page is tested twice\<close>

lemma in_step_moves [simp]:
  "in_step (switch_to_previous s) = in_step s"
  "in_step (navigate (open_window s) loaded) = in_step s"
  "in_step (open_window s) = in_step s"
  by (simp_all add: in_step_def)

lemma init_fields [simp]:
  "url (init u degree fol) = u"
  "required_degree (init u degree fol) = degree"
  "follow (init u degree fol) = fol"
  "visited_links (init u degree fol) = []"
  "audited (init u degree fol) = []"
  "windows (init u degree fol) = []"
  "current_window (init u degree fol) = 0"
  "correct (init u degree fol) c = 0"
  "wrong (init u degree fol) c = 0"
  by (simp_all add: init_def)

lemma once_follow_links:
  assumes IH: "\<And>s r s'. test_page w n s = (r, s') \<Longrightarrow> follow s \<Longrightarrow> in_step s \<Longrightarrow>
      current_url (driver s) \<notin> set (visited_links s) \<Longrightarrow>
      (r = Returned \<longrightarrow> in_step s') \<and> distinct (audited s') \<and> follow s'"
    and "follow_links w n origin ls s = (r, s')" "follow s" "in_step s"
  shows "(r = Returned \<longrightarrow> in_step s') \<and> distinct (audited s') \<and> follow s'"
  using assms(2-)
proof (induction ls arbitrary: s)
  case Nil
  then show ?case by (auto simp: in_step_def)
next
  case (Cons l ls)
  from Cons.prems(1) show ?case
  proof (cases rule: follow_links_Cons_cases)
    case stale
    with Cons.prems show ?thesis by (auto simp: in_step_def)
  next
    case skip
    with Cons.prems Cons.IH show ?thesis by blast
  next
    case (nav_failed link_url)
    with Cons.prems show ?thesis by (auto simp: in_step_def)
  next
    case (seen link_url loaded)
    from Cons.IH [OF seen(5)] Cons.prems show ?thesis by simp
  next
    case (no_host link_url loaded)
    with Cons.prems show ?thesis by (auto simp: in_step_def)
  next
    case (other_host link_url loaded host)
    from Cons.IH [OF other_host(6)] Cons.prems show ?thesis by simp
  next
    case (tested link_url loaded host s3)
    from IH [OF tested(7)] Cons.prems tested(6)
    have "in_step s3" "follow s3" by simp_all
    with Cons.IH [OF tested(8)] show ?thesis by simp
  next
    case (aborted link_url loaded host)
    from IH [OF aborted(7)] Cons.prems aborted(6,8) show ?thesis by simp
  qed
qed

lemma once_test_page:
  assumes "test_page w n s = (r, s')" "follow s" "in_step s"
    "current_url (driver s) \<notin> set (visited_links s)"
  shows "(r = Returned \<longrightarrow> in_step s') \<and> distinct (audited s') \<and> follow s'"
  using assms
proof (induction n arbitrary: s r s')
  case 0
  then show ?case by (auto simp: in_step_def)
next
  case (Suc n)
  let ?here = "current_url (driver s)"
  from Suc.prems(1) show ?case
  proof (cases rule: test_page_Suc_cases)
    case (raised e)
    with Suc.prems show ?thesis by (auto simp: in_step_def)
  next
    case single
    with Suc.prems show ?thesis by simp
  next
    case (returned s2 s4)
    let ?s3 = "s2\<lparr>visited_links := visited_links s @ [?here]\<rparr>"
    from run_checks_same [OF returned(1)] Suc.prems
    have 3: "follow ?s3" "in_step ?s3" by (auto simp: same_crawl_def in_step_def)
    have "(Returned = Returned \<longrightarrow> in_step s4) \<and> distinct (audited s4) \<and> follow s4"
      by (rule once_follow_links [OF _ returned(3) 3]) (rule Suc.IH)
    with returned(4,5) show ?thesis by (simp add: in_step_def)
  next
    case (cut s2)
    let ?s3 = "s2\<lparr>visited_links := visited_links s @ [?here]\<rparr>"
    from run_checks_same [OF cut(1)] Suc.prems
    have 3: "follow ?s3" "in_step ?s3" by (auto simp: same_crawl_def in_step_def)
    have "(r = Returned \<longrightarrow> in_step s') \<and> distinct (audited s') \<and> follow s'"
      by (rule once_follow_links [OF _ cut(3) 3]) (rule Suc.IH)
    then show ?thesis .
  qed
qed

lemma single_test_page:
  assumes "test_page w n s = (r, s')" "\<not> follow s"
  shows "audited s' = audited s \<or> audited s' = audited s @ [current_url (driver s)]"
proof (cases n)
  case 0
  with assms show ?thesis by simp
next
  case (Suc m)
  from assms(1) [unfolded Suc] show ?thesis
  proof (cases rule: test_page_Suc_cases)
    case (raised e)
    then show ?thesis by simp
  next
    case single
    from run_checks_same [OF single(1)] show ?thesis by (simp add: same_crawl_def)
  next
    case (returned s2 s4)
    with assms show ?thesis by simp
  next
    case (cut s2)
    with assms show ?thesis by simp
  qed
qed

lemma crawl_audited_distinct: "distinct (audited (snd (crawl w n u degree fol)))"
proof (cases "get w u")
  case None
  then show ?thesis by (simp add: crawl_def start_driver_def)
next
  case (Some root)
  let ?s = "(init u degree fol)\<lparr>windows := [root], current_window := 0, page := page_source root\<rparr>"
  obtain r s' where t: "test_page w n ?s = (r, s')" by (cases "test_page w n ?s")
  have c: "crawl w n u degree fol = (r, s')"
    using Some t by (simp add: crawl_def start_driver_def)
  show ?thesis
  proof (cases fol)
    case True
    have "(r = Returned \<longrightarrow> in_step s') \<and> distinct (audited s') \<and> follow s'"
      by (rule once_test_page [OF t]) (simp_all add: in_step_def True)
    with c show ?thesis by simp
  next
    case False
    from single_test_page [OF t] False c show ?thesis by auto
  qed
qed

lemma skip_all_links:
  assumes "list_all (skipped w s) ls" "current_window s = origin"
  shows "follow_links w n origin ls s = (Returned, s)"
  using assms by (induction ls) (auto simp: skipped_def Let_def)

section \<open>The findings of a page do not depend on the counters\<close>

lemma driver_updates [simp]:
  "driver (s\<lparr>visited_links := v\<rparr>) = driver s"
  "driver (s\<lparr>page := p\<rparr>) = driver s"
  "driver (s\<lparr>audited := x\<rparr>) = driver s"
  by (simp_all add: driver_def)

lemma level_record:
  "level dc dw s t \<Longrightarrow> level dc dw (record_finding k f s) (record_finding k f t)"
  by (simp add: level_def record_finding_correct record_finding_wrong)

lemma level_fold:
  "level dc dw s t \<Longrightarrow>
     level dc dw (fold (\<lambda>x. record_finding k (v x)) xs s) (fold (\<lambda>x. record_finding k (v x)) xs t)"
  by (induction xs arbitrary: s t) (simp_all add: level_record)

lemma level_page: "level dc dw s t \<Longrightarrow> page t = page s"
  by (simp add: level_def)

lemma level_driver: "level dc dw s t \<Longrightarrow> driver t = driver s"
  by (simp add: level_def)

lemma level_check_alt_texts:
  "level dc dw s t \<Longrightarrow> level dc dw (check_alt_texts s) (check_alt_texts t)"
  by (simp add: check_alt_texts_def level_page level_fold)

lemma level_check_input_labels:
  "level dc dw s t \<Longrightarrow> level dc dw (check_input_labels s) (check_input_labels t)"
  by (simp add: check_input_labels_def Let_def level_page level_fold)

lemma level_check_buttons:
  "level dc dw s t \<Longrightarrow> level dc dw (check_buttons s) (check_buttons t)"
  by (simp add: check_buttons_def Let_def level_page level_fold)

lemma level_check_links:
  "level dc dw s t \<Longrightarrow> level dc dw (check_links s) (check_links t)"
  by (simp add: check_links_def level_page level_fold)

lemma level_check_doc_language:
  assumes "level dc dw s t" "check_doc_language s = Inr s1"
  shows "\<exists>t1. check_doc_language t = Inr t1 \<and> level dc dw s1 t1"
proof (cases "find_first ''html'' (page s)")
  case None
  with assms(2) show ?thesis by (simp add: check_doc_language_def)
next
  case (Some html)
  with assms(2) have "s1 = record_finding doc_language (doc_language_verdict html) s"
    by (simp add: check_doc_language_def)
  with Some level_record [OF assms(1), of doc_language "doc_language_verdict html"]
  show ?thesis by (simp add: check_doc_language_def level_page [OF assms(1)])
qed

lemma level_contrast_loop:
  assumes "level dc dw s t" "contrast_loop d pg els s = Inr s2"
  shows "\<exists>t2. contrast_loop d pg els t = Inr t2 \<and> level dc dw s2 t2"
  using assms
proof (induction els arbitrary: s t)
  case Nil
  then show ?case by simp
next
  case (Cons x els)
  show ?case
  proof (cases "contrast_verdict d pg x")
    case (Inl e)
    with Cons.prems show ?thesis by simp
  next
    case (Inr v)
    show ?thesis
    proof (cases v)
      case None
      with Inr Cons.prems Cons.IH [of s t] show ?thesis by simp
    next
      case (Some f)
      with Inr Cons.prems
        Cons.IH [of "record_finding color_contrast f s" "record_finding color_contrast f t"]
      show ?thesis by (simp add: level_record)
    qed
  qed
qed

lemma level_set_page: "level dc dw s t \<Longrightarrow> level dc dw (s\<lparr>page := p\<rparr>) (t\<lparr>page := p\<rparr>)"
  by (simp add: level_def)

lemma level_check_color_contrast:
  assumes "level dc dw s t" "check_color_contrast s = Inr s2"
  shows "\<exists>t2. check_color_contrast t = Inr t2 \<and> level dc dw s2 t2"
proof -
  obtain pg ts where e: "extract_texts (page s) = (pg, ts)" by (cases "extract_texts (page s)")
  let ?els = "ts @ map fst (filter (\<lambda>(r, d). is_tag d \<and> name d = ''input'') (located pg))"
  from assms(2) e have "contrast_loop (driver s) pg ?els (s\<lparr>page := pg\<rparr>) = Inr s2"
    by (simp add: check_color_contrast_def Let_def)
  from level_contrast_loop [OF level_set_page [OF assms(1)] this]
  obtain t2 where "contrast_loop (driver s) pg ?els (t\<lparr>page := pg\<rparr>) = Inr t2" "level dc dw s2 t2"
    by blast
  with e show ?thesis
    by (simp add: check_color_contrast_def Let_def level_page [OF assms(1)]
        level_driver [OF assms(1)])
qed

lemma level_run_checks:
  assumes "level dc dw s t" "run_checks s = Inr s2"
  shows "\<exists>t2. run_checks t = Inr t2 \<and> level dc dw s2 t2"
proof -
  from assms(2) obtain s1 where 1: "check_doc_language s = Inr s1"
    and 2: "check_color_contrast (check_links (check_buttons (check_input_labels (check_alt_texts s1)))) = Inr s2"
    by (auto simp: run_checks_def split: sum.splits)
  from level_check_doc_language [OF assms(1) 1]
  obtain t1 where t1: "check_doc_language t = Inr t1" "level dc dw s1 t1" by blast
  from t1(2) have "level dc dw (check_links (check_buttons (check_input_labels (check_alt_texts s1))))
      (check_links (check_buttons (check_input_labels (check_alt_texts t1))))"
    by (intro level_check_links level_check_buttons level_check_input_labels level_check_alt_texts)
  from level_check_color_contrast [OF this 2] t1(1) show ?thesis
    by (simp add: run_checks_def)
qed

lemma run_checks_at:
  assumes "page s = page_source st" "driver s = st" "checks_return st"
  shows "\<exists>s2. run_checks s = Inr s2
     \<and> (\<forall>c. correct s2 c = correct s c + passes_on st c \<and> wrong s2 c = wrong s c + fails_on st c)"
proof -
  from assms(3) obtain p2 where p: "run_checks (tester_at st) = Inr p2"
    by (auto simp: checks_return_def split: sum.splits)
  have "level (\<lambda>c. int (correct s c)) (\<lambda>c. int (wrong s c)) (tester_at st) s"
    using assms(1,2) by (simp add: level_def tester_at_def driver_def)
  from level_run_checks [OF this p]
  obtain s2 where "run_checks s = Inr s2"
    "level (\<lambda>c. int (correct s c)) (\<lambda>c. int (wrong s c)) p2 s2" by blast
  then have r: "run_checks s = Inr s2"
    and c: "\<And>c. int (correct s2 c) = int (correct p2 c) + int (correct s c)"
      "\<And>c. int (wrong s2 c) = int (wrong p2 c) + int (wrong s c)"
    by (simp_all add: level_def)
  have "correct s2 c = correct s c + passes_on st c \<and> wrong s2 c = wrong s c + fails_on st c" for c
    using c(1) [of c] c(2) [of c] p by (simp add: passes_on_def fails_on_def)
  with r show ?thesis by blast
qed

section \<open>The crawl ends on a finite web\<close>

lemma no_cut_follow_links:
  assumes fin: "finite S" and closed: "\<forall>v st. get w v = Some st \<longrightarrow> current_url st \<in> S"
    and IH: "\<And>s r s'. test_page w n s = (r, s') \<Longrightarrow> follow s \<Longrightarrow>
      current_url (driver s) \<in> S \<Longrightarrow> current_url (driver s) \<notin> set (visited_links s) \<Longrightarrow>
      card (S - set (visited_links s)) \<le> n \<Longrightarrow>
      r \<noteq> Out_of_fuel \<and> set (visited_links s) \<subseteq> set (visited_links s') \<and> follow s'"
    and "follow_links w n origin ls s = (r, s')" "follow s"
      "card (S - set (visited_links s)) \<le> n"
  shows "r \<noteq> Out_of_fuel \<and> set (visited_links s) \<subseteq> set (visited_links s') \<and> follow s'"
  using assms(4-)
proof (induction ls arbitrary: s)
  case Nil
  then show ?case by simp
next
  case (Cons l ls)
  from Cons.prems(1) show ?case
  proof (cases rule: follow_links_Cons_cases)
    case stale
    with Cons.prems show ?thesis by simp
  next
    case skip
    from Cons.IH [OF skip(2) Cons.prems(2,3)] show ?thesis .
  next
    case (nav_failed link_url)
    with Cons.prems show ?thesis by simp
  next
    case (seen link_url loaded)
    from Cons.IH [OF seen(5)] Cons.prems show ?thesis by simp
  next
    case (no_host link_url loaded)
    with Cons.prems show ?thesis by simp
  next
    case (other_host link_url loaded host)
    from Cons.IH [OF other_host(6)] Cons.prems show ?thesis by simp
  next
    case (tested link_url loaded host s3)
    let ?s2 = "navigate (open_window s) loaded"
    have "current_url (driver ?s2) \<in> S" using closed tested(3) by simp
    from IH [OF tested(7) _ this] Cons.prems(2,3) tested(6)
    have 3: "set (visited_links s) \<subseteq> set (visited_links s3)" "follow s3" by simp_all
    from 3(1) have "S - set (visited_links s3) \<subseteq> S - set (visited_links s)" by blast
    with fin have "card (S - set (visited_links s3)) \<le> card (S - set (visited_links s))"
      by (intro card_mono) simp_all
    with Cons.prems(3) have "card (S - set (visited_links s3)) \<le> n" by simp
    from Cons.IH [OF tested(8) 3(2) this] 3(1) show ?thesis by blast
  next
    case (aborted link_url loaded host)
    let ?s2 = "navigate (open_window s) loaded"
    have "current_url (driver ?s2) \<in> S" using closed aborted(3) by simp
    from IH [OF aborted(7) _ this] Cons.prems(2,3) aborted(6)
    show ?thesis by simp
  qed
qed

lemma no_cut_test_page:
  assumes fin: "finite S" and closed: "\<forall>v st. get w v = Some st \<longrightarrow> current_url st \<in> S"
    and "test_page w n s = (r, s')" "follow s" "current_url (driver s) \<in> S"
      "current_url (driver s) \<notin> set (visited_links s)" "card (S - set (visited_links s)) \<le> n"
  shows "r \<noteq> Out_of_fuel \<and> set (visited_links s) \<subseteq> set (visited_links s') \<and> follow s'"
  using assms(3-)
proof (induction n arbitrary: s r s')
  case 0
  from fin 0(5) have "S - set (visited_links s) = {}" by simp
  with 0(3,4) show ?case by blast
next
  case (Suc n)
  let ?here = "current_url (driver s)"
  have here: "?here \<in> S - set (visited_links s)" using Suc.prems(3,4) by simp
  from Suc.prems(1) show ?case
  proof (cases rule: test_page_Suc_cases)
    case (raised e)
    with Suc.prems show ?thesis by simp
  next
    case single
    with Suc.prems show ?thesis by simp
  next
    case (returned s2 s4)
    let ?s3 = "s2\<lparr>visited_links := visited_links s @ [?here]\<rparr>"
    from run_checks_same [OF returned(1)] Suc.prems(2)
    have f: "follow ?s3" by (simp add: same_crawl_def)
    have "S - set (visited_links ?s3) = (S - set (visited_links s)) - {?here}" by auto
    with here fin Suc.prems(5) have c: "card (S - set (visited_links ?s3)) \<le> n"
      by (simp add: card_Diff_singleton)
    have "Returned \<noteq> Out_of_fuel \<and> set (visited_links ?s3) \<subseteq> set (visited_links s4) \<and> follow s4"
      by (rule no_cut_follow_links [OF fin closed _ returned(3) f c]) (rule Suc.IH)
    with returned(4,5) show ?thesis by simp
  next
    case (cut s2)
    let ?s3 = "s2\<lparr>visited_links := visited_links s @ [?here]\<rparr>"
    from run_checks_same [OF cut(1)] Suc.prems(2)
    have f: "follow ?s3" by (simp add: same_crawl_def)
    have "S - set (visited_links ?s3) = (S - set (visited_links s)) - {?here}" by auto
    with here fin Suc.prems(5) have c: "card (S - set (visited_links ?s3)) \<le> n"
      by (simp add: card_Diff_singleton)
    have "r \<noteq> Out_of_fuel \<and> set (visited_links ?s3) \<subseteq> set (visited_links s') \<and> follow s'"
      by (rule no_cut_follow_links [OF fin closed _ cut(3) f c]) (rule Suc.IH)
    then show ?thesis by simp
  qed
qed

lemma crawl_ends:
  assumes fin: "finite S" and closed: "\<forall>v st. get w v = Some st \<longrightarrow> current_url st \<in> S"
    and n: "card S \<le> n"
  shows "fst (crawl w n u degree fol) \<noteq> Out_of_fuel"
proof (cases "get w u")
  case None
  then show ?thesis by (simp add: crawl_def start_driver_def)
next
  case (Some root)
  let ?s = "(init u degree fol)\<lparr>windows := [root], current_window := 0, page := page_source root\<rparr>"
  obtain r s' where t: "test_page w n ?s = (r, s')" by (cases "test_page w n ?s")
  have c: "crawl w n u degree fol = (r, s')"
    using Some t by (simp add: crawl_def start_driver_def)
  have root: "current_url (driver ?s) \<in> S" using closed Some by (simp add: driver_def)
  show ?thesis
  proof (cases fol)
    case True
    have "r \<noteq> Out_of_fuel \<and> set (visited_links ?s) \<subseteq> set (visited_links s') \<and> follow s'"
      by (rule no_cut_test_page [OF fin closed t _ root]) (simp_all add: True n)
    with c show ?thesis by simp
  next
    case False
    from root fin have "card S \<noteq> 0" by auto
    with n obtain m where m: "n = Suc m" by (cases n) auto
    from t [unfolded m] have "r \<noteq> Out_of_fuel"
    proof (cases rule: test_page_Suc_cases)
      case (raised e)
      then show ?thesis by simp
    next
      case single
      then show ?thesis by simp
    next
      case (returned s2 s4)
      then show ?thesis by simp
    next
      case (cut s2)
      with False show ?thesis by simp
    qed
    with c show ?thesis by simp
  qed
qed

section \<open>Cyclic link graphs\<close>

lemma skipped_not_followed: "\<not> followed l \<Longrightarrow> skipped w s l"
  by (auto simp: followed_def skipped_def)

lemma leaf_test_page:
  assumes f: "follow s" and c: "checks_return (driver s)"
    and sk: "list_all (skipped w (s\<lparr>visited_links := visited_links s @ [current_url (driver s)]\<rparr>))
               (find_links (driver s))"
  shows "\<exists>s'. test_page w (Suc n) s = (Returned, s')
     \<and> audited s' = audited s @ [current_url (driver s)]
     \<and> visited_links s' = visited_links s @ [current_url (driver s)]
     \<and> windows s' = windows s \<and> url s' = url s \<and> follow s'
     \<and> current_window s' = current_window (switch_to_previous s)
     \<and> (\<forall>c. correct s' c = correct s c + passes_on (driver s) c
             \<and> wrong s' c = wrong s c + fails_on (driver s) c)"
proof -
  let ?here = "current_url (driver s)"
  let ?s1 = "s\<lparr>page := page_source (driver s), audited := audited s @ [?here]\<rparr>"
  have "page ?s1 = page_source (driver s)" "driver ?s1 = driver s" by simp_all
  from run_checks_at [OF this c] obtain s2 where r: "run_checks ?s1 = Inr s2"
    and cnt: "\<forall>c. correct s2 c = correct s c + passes_on (driver s) c
                 \<and> wrong s2 c = wrong s c + fails_on (driver s) c"
    by auto
  from run_checks_same [OF r] have same: "same_crawl ?s1 s2" .
  then have s2: "follow s2" "visited_links s2 = visited_links s" "url s2 = url s"
    "current_window s2 = current_window s" "windows s2 = windows s" "driver s2 = driver s"
    "audited s2 = audited s @ [?here]"
    using f by (simp_all add: same_crawl_def driver_def)
  let ?s3 = "s2\<lparr>visited_links := visited_links s2 @ [current_url (driver s2)]\<rparr>"
  have "list_all (skipped w ?s3) (find_links (driver s))"
    using sk s2 by (simp add: list_all_iff skipped_def driver_def)
  then have fl: "follow_links w n (current_window ?s3) (find_links (driver ?s3)) ?s3 = (Returned, ?s3)"
    using s2 by (intro skip_all_links) (simp_all add: driver_def)
  have "test_page w (Suc n) s = (Returned, switch_to_previous ?s3)"
    using r s2(1) fl by (simp add: Let_def)
  then show ?thesis using s2 cnt by (simp add: switch_to_previous_def)
qed

lemma visit_other_page:
  assumes ls: "list_all (\<lambda>l. \<not> followed l \<or> urljoin w (url s) (href l) = current_url (driver s)
                            \<or> leads_to w (url s) l B) ls"
      "list_ex (\<lambda>l. followed l \<and> leads_to w (url s) l B) ls"
    and b: "current_url B \<noteq> current_url (driver s)" "current_url B \<notin> set (visited_links s)"
    and B: "on_host w (url s) (current_url B)" "checks_return B"
    and ret: "list_all (\<lambda>l. \<not> followed l \<or> urljoin w (url s) (href l) \<in> set (visited_links s)
                             \<or> urljoin w (url s) (href l) = current_url B) (find_links B)"
    and s: "follow s" "current_window s = origin" "Suc origin = length (windows s)"
  shows "\<exists>s'. follow_links w (Suc n) origin ls s = (Returned, s')
     \<and> audited s' = audited s @ [current_url B]
     \<and> visited_links s' = visited_links s @ [current_url B]
     \<and> windows s' = windows s @ [B] \<and> current_window s' = origin \<and> url s' = url s
     \<and> (\<forall>c. correct s' c = correct s c + passes_on B c \<and> wrong s' c = wrong s c + fails_on B c)"
  using ls
proof (induction ls)
  case Nil
  then show ?case by simp
next
  case (Cons l ls)
  from Cons.prems(1) have rest: "list_all (\<lambda>l. \<not> followed l
      \<or> urljoin w (url s) (href l) = current_url (driver s) \<or> leads_to w (url s) l B) ls"
    and this_link: "\<not> followed l \<or> urljoin w (url s) (href l) = current_url (driver s)
      \<or> leads_to w (url s) l B"
    by simp_all
  show ?case
  proof (cases "followed l \<and> leads_to w (url s) l B")
    case False
    with this_link have sk: "skipped w s l"
      by (auto simp: skipped_def followed_def)
    from False Cons.prems(2) have "list_ex (\<lambda>l. followed l \<and> leads_to w (url s) l B) ls"
      by auto
    from Cons.IH [OF rest this] sk s(2) show ?thesis
      by (simp add: skipped_def Let_def)
  next
    case True
    then obtain link_url where h: "href l = Some link_url" "get w link_url = Some B"
      and full: "urljoin w (url s) (href l) = current_url B"
      and shown: "is_displayed l" "link_url \<noteq> []"
      by (auto simp: leads_to_def followed_def split: option.splits)
    let ?s2 = "navigate (open_window s) B"
    from B(1) obtain host where host: "hostname w (url s) = Some host"
      "sublist host (current_url B)"
      by (auto simp: on_host_def split: option.splits)
    have "list_all (skipped w (?s2\<lparr>visited_links := visited_links ?s2 @ [current_url (driver ?s2)]\<rparr>))
            (find_links (driver ?s2))"
      using ret by (auto simp: list_all_iff skipped_def followed_def)
    with leaf_test_page [of ?s2 w n] s(1) B(2)
    obtain s3 where t: "test_page w (Suc n) ?s2 = (Returned, s3)"
      and s3: "audited s3 = audited s @ [current_url B]"
        "visited_links s3 = visited_links s @ [current_url B]"
        "windows s3 = windows s @ [B]" "url s3 = url s" "follow s3"
        "current_window s3 = current_window (switch_to_previous ?s2)"
        "\<forall>c. correct s3 c = correct s c + passes_on B c \<and> wrong s3 c = wrong s c + fails_on B c"
      by auto
    from s3(6) s(3) have cur: "current_window s3 = origin"
      by (cases "windows s") (simp_all add: switch_to_previous_def)
    have d3: "driver s3 = driver s"
      using s3(3) cur s(2,3) by (simp add: driver_def nth_append)
    have "list_all (skipped w s3) ls"
      using rest s3 d3 by (auto simp: list_all_iff skipped_def followed_def leads_to_def)
    from skip_all_links [OF this cur]
    have fl: "follow_links w (Suc n) origin ls s3 = (Returned, s3)" .
    have "follow_links w (Suc n) origin (l # ls) s = (Returned, s3)"
      using shown h full b host s(2) t fl by (simp add: Let_def)
    with s3 cur show ?thesis by simp
  qed
qed

lemma self_link_crawl:
  assumes "self_linking w A"
  shows "fst (crawl w (Suc n) (current_url A) degree True) = Returned
     \<and> audited (snd (crawl w (Suc n) (current_url A) degree True)) = [current_url A]
     \<and> correct (snd (crawl w (Suc n) (current_url A) degree True)) c = passes_on A c
     \<and> wrong (snd (crawl w (Suc n) (current_url A) degree True)) c = fails_on A c"
proof -
  let ?a = "current_url A"
  from assms have A: "get w ?a = Some A"
    "list_all (\<lambda>l. \<not> followed l \<or> urljoin w ?a (href l) = ?a) (find_links A)"
    "checks_return A"
    by (simp_all add: self_linking_def)
  let ?s = "(init ?a degree True)\<lparr>windows := [A], current_window := 0, page := page_source A\<rparr>"
  have d: "driver ?s = A" by (simp add: driver_def)
  have "list_all (skipped w (?s\<lparr>visited_links := visited_links ?s @ [current_url (driver ?s)]\<rparr>))
          (find_links (driver ?s))"
    using A(2) d by (auto simp: list_all_iff skipped_def followed_def)
  with leaf_test_page [of ?s w n] A(3) d
  obtain s' where "test_page w (Suc n) ?s = (Returned, s')" "audited s' = [?a]"
    "\<forall>c. correct s' c = passes_on A c \<and> wrong s' c = fails_on A c"
    by auto
  then show ?thesis using A(1) by (simp add: crawl_def start_driver_def)
qed

lemma two_page_crawl:
  assumes "two_page_cycle w A B"
  shows "fst (crawl w (Suc (Suc n)) (current_url A) degree True) = Returned
     \<and> audited (snd (crawl w (Suc (Suc n)) (current_url A) degree True))
         = [current_url A, current_url B]
     \<and> correct (snd (crawl w (Suc (Suc n)) (current_url A) degree True)) c
         = passes_on A c + passes_on B c
     \<and> wrong (snd (crawl w (Suc (Suc n)) (current_url A) degree True)) c
         = fails_on A c + fails_on B c"
proof -
  let ?a = "current_url A"
  let ?b = "current_url B"
  from assms have ab: "?a \<noteq> ?b" "on_host w ?a ?b"
    and A: "get w ?a = Some A"
      "list_all (\<lambda>l. \<not> followed l \<or> urljoin w ?a (href l) = ?a \<or> leads_to w ?a l B) (find_links A)"
      "list_ex (\<lambda>l. followed l \<and> leads_to w ?a l B) (find_links A)" "checks_return A"
    and B: "list_all (\<lambda>l. \<not> followed l \<or> urljoin w ?a (href l) = ?a
                           \<or> urljoin w ?a (href l) = ?b) (find_links B)" "checks_return B"
    by (simp_all add: two_page_cycle_def)
  let ?s = "(init ?a degree True)\<lparr>windows := [A], current_window := 0, page := page_source A\<rparr>"
  let ?s1 = "?s\<lparr>page := page_source (driver ?s), audited := audited ?s @ [current_url (driver ?s)]\<rparr>"
  have d: "driver ?s = A" "driver ?s1 = A" by (simp_all add: driver_def)
  have "page ?s1 = page_source A" "driver ?s1 = A" using d by simp_all
  from run_checks_at [OF this A(4)] obtain s2 where r: "run_checks ?s1 = Inr s2"
    and cnt: "\<forall>c. correct s2 c = passes_on A c \<and> wrong s2 c = fails_on A c"
    by auto
  from run_checks_same [OF r]
  have s2: "follow s2" "visited_links s2 = []" "url s2 = ?a" "current_window s2 = 0"
    "windows s2 = [A]" "audited s2 = [?a]" "driver s2 = A"
    by (simp_all add: same_crawl_def driver_def)
  let ?s3 = "s2\<lparr>visited_links := visited_links s2 @ [current_url (driver s2)]\<rparr>"
  have s3: "follow ?s3" "visited_links ?s3 = [?a]" "url ?s3 = ?a" "current_window ?s3 = 0"
    "windows ?s3 = [A]" "audited ?s3 = [?a]" "driver ?s3 = A"
    "correct ?s3 = correct s2" "wrong ?s3 = wrong s2"
    using s2 by (simp_all add: driver_def)
  have "\<exists>s'. follow_links w (Suc n) 0 (find_links A) ?s3 = (Returned, s')
     \<and> audited s' = audited ?s3 @ [?b] \<and> visited_links s' = visited_links ?s3 @ [?b]
     \<and> windows s' = windows ?s3 @ [B] \<and> current_window s' = 0 \<and> url s' = url ?s3
     \<and> (\<forall>c. correct s' c = correct ?s3 c + passes_on B c
             \<and> wrong s' c = wrong ?s3 c + fails_on B c)"
  proof (rule visit_other_page)
    show "list_all (\<lambda>l. \<not> followed l \<or> urljoin w (url ?s3) (href l) = current_url (driver ?s3)
                            \<or> leads_to w (url ?s3) l B) (find_links A)"
      using A(2) s3 by simp
    show "list_ex (\<lambda>l. followed l \<and> leads_to w (url ?s3) l B) (find_links A)"
      using A(3) s3 by simp
    show "?b \<noteq> current_url (driver ?s3)" "?b \<notin> set (visited_links ?s3)"
      using ab(1) s3 by simp_all
    show "on_host w (url ?s3) ?b" using ab(2) s3 by simp
    show "checks_return B" by (rule B(2))
    show "list_all (\<lambda>l. \<not> followed l \<or> urljoin w (url ?s3) (href l) \<in> set (visited_links ?s3)
                             \<or> urljoin w (url ?s3) (href l) = ?b) (find_links B)"
      using B(1) s3 by simp
    show "follow ?s3" "current_window ?s3 = 0" "Suc 0 = length (windows ?s3)"
      using s3 by simp_all
  qed
  then obtain s4 where fl: "follow_links w (Suc n) 0 (find_links A) ?s3 = (Returned, s4)"
    and s4: "audited s4 = [?a, ?b]"
      "\<forall>c. correct s4 c = passes_on A c + passes_on B c
          \<and> wrong s4 c = fails_on A c + fails_on B c"
    using s3 cnt by auto
  have "test_page w (Suc (Suc n)) ?s = (Returned, switch_to_previous s4)"
    using r s2 fl d by (simp add: Let_def)
  then show ?thesis using A(1) s4 by (simp add: crawl_def start_driver_def)
qed

section \<open>The counters of the six checks\<close>

lemma judged_record:
  "judged (record_finding k f s) c = judged s c + (if c = k then 1 else 0)"
  by (simp add: judged_def record_finding_correct record_finding_wrong)

lemma judged_fold:
  "judged (fold (\<lambda>x. record_finding k (v x)) xs s) c
     = judged s c + (if c = k then length xs else 0)"
proof -
  have "length (filter (\<lambda>x. fst (v x)) xs) + length (filter (\<lambda>x. \<not> fst (v x)) xs) = length xs"
    by (rule sum_length_filter_compl)
  then show ?thesis
    by (simp add: judged_def fold_record_correct fold_record_wrong)
qed

lemma judged_check_doc_language:
  "check_doc_language s = Inr s1 \<Longrightarrow>
     judged s1 c = judged s c + (if c = doc_language then 1 else 0)"
  by (auto simp: check_doc_language_def judged_record split: option.splits)

lemma judged_check_alt_texts:
  "judged (check_alt_texts s) c
     = judged s c + (if c = alt_texts then length (find_all ''img'' (page s)) else 0)"
  by (simp add: check_alt_texts_def judged_fold)

lemma judged_check_input_labels:
  "judged (check_input_labels s) c
     = judged s c + (if c = input_labels
                     then length (filter needs_label (find_all ''input'' (page s))) else 0)"
  by (simp add: check_input_labels_def Let_def judged_fold)

lemma judged_check_buttons:
  "judged (check_buttons s) c
     = judged s c + (if c = empty_buttons
                     then length (find_button_inputs (page s)) + length (find_all ''button'' (page s))
                     else 0)"
  by (simp add: check_buttons_def Let_def judged_fold)

lemma judged_check_links:
  "judged (check_links s) c
     = judged s c + (if c = empty_links then length (find_all ''a'' (page s)) else 0)"
  by (simp add: check_links_def judged_fold)

lemma judged_contrast_loop:
  "contrast_loop d pg els s = Inr s' \<Longrightarrow>
     judged s' c = judged s c
       + (if c = color_contrast then length (filter (has_verdict d pg) els) else 0)"
proof (induction els arbitrary: s)
  case Nil
  then show ?case by simp
next
  case (Cons t els)
  show ?case
  proof (cases "contrast_verdict d pg t")
    case (Inl e)
    with Cons.prems show ?thesis by simp
  next
    case (Inr v)
    show ?thesis
    proof (cases v)
      case None
      with Inr Cons.prems Cons.IH [of s] show ?thesis by (simp add: has_verdict_def)
    next
      case (Some f)
      with Inr Cons.prems Cons.IH [of "record_finding color_contrast f s"]
      show ?thesis by (simp add: has_verdict_def judged_record)
    qed
  qed
qed

lemma judged_check_color_contrast:
  assumes "check_color_contrast s = Inr s2"
  shows "judged s2 c = judged s c
       + (if c = color_contrast
          then length (filter (has_verdict (driver s) (fst (extract_texts (page s))))
                         (elements_with_text (page s)))
          else 0)"
proof -
  obtain pg ts where e: "extract_texts (page s) = (pg, ts)" by (cases "extract_texts (page s)")
  from assms e have
    "contrast_loop (driver s) pg (elements_with_text (page s)) (s\<lparr>page := pg\<rparr>) = Inr s2"
    by (simp add: check_color_contrast_def Let_def elements_with_text_def)
  from judged_contrast_loop [OF this] e show ?thesis
    by (simp add: judged_def)
qed

lemma no_break_space_blank:
  "strip [CHR 0xC2, CHR 0xA0] = []" "strip [CHR 0xE2, CHR 0x80, CHR 0xA8] = []"
  "strip ''  a '' = [97]"
  by (simp_all add: strip_def isspace_def)

lemma elements_with_text_nodes:
  "elements_with_text pg =
     map (\<lambda>(r, d). butlast r)
       (filter (\<lambda>(r, d). \<not> is_tag d \<and> strip (string_of d) \<noteq> [] \<and> string_of d \<noteq> [CHR 0x0A])
          (located (fst (extract_texts pg))))
     @ map fst (filter (\<lambda>(r, d). is_tag d \<and> name d = ''input'') (located (fst (extract_texts pg))))"
proof -
  have "filter (\<lambda>(r, d). strip (string_of d) \<noteq> [] \<and> string_of d \<noteq> [CHR 0x0A])
          (filter (\<lambda>(r, d). \<not> is_tag d) xs)
        = filter (\<lambda>(r, d). \<not> is_tag d \<and> strip (string_of d) \<noteq> [] \<and> string_of d \<noteq> [CHR 0x0A]) xs"
    for xs :: "(nat list \<times> node) list"
    by (induction xs) auto
  then show ?thesis
    by (simp add: elements_with_text_def extract_texts_def Let_def)
qed

text \<open>
  Claim C10, as stated, fails for the colour check: it goes through the texts of the
  page, not through its elements, and takes the element above each text. The paragraph
  \<^verbatim>\<open><p>a<b>x</b>c</p>\<close> holds two texts; it is judged twice, and with the element
  \<^verbatim>\<open>b\<close> the check adds three to the counter for a page with two elements that hold text.
\<close>

theorem paragraph_counted_per_text:
  "get_node (document [mixed_paragraph]) [0, 0, 0] = Some mixed_paragraph
   \<and> fst (extract_texts (document [mixed_paragraph])) = document [mixed_paragraph]
   \<and> elements_with_text (document [mixed_paragraph]) = [[0, 0, 0], [0, 0, 0, 1], [0, 0, 0]]
   \<and> (case check_color_contrast paragraph_tester of
         Inl e \<Rightarrow> False
       | Inr s \<Rightarrow> correct s color_contrast = 3 \<and> wrong s color_contrast = 0)"
  by (simp add: check_color_contrast_def elements_with_text_def extract_texts_def
      invisible_element_def strip_def
      isspace_def contrast_verdict_def paragraph_site_def paragraph_tester_def mixed_paragraph_def
      transparent_style_def alpha_def Let_def
      xpath_soup_def large_text_def int_of_digits_def isdigit_def get_contrast_ratio_def
      luminance_def red_def green_def blue_def convert_zero convert_255 sublist_code(3)
      document_def find_children_def driver_def record_finding_def add_correct_def)

text \<open>
  Claim C10, amended. Every counter is zero in a new tester. Recording a finding adds one
  to exactly one of the two counters of its category and leaves all others as they are.
  Each of the six checks only lets counters grow, and adds to the findings of its own
  category, and to no other, one for each item it judges: one for the page in the
  language check, one for each element it goes through in the four other checks on the
  tree, and in the colour check one for each entry of its list that gets a verdict. That
  list has one entry for every text of the stripped page that is not blank, which is the
  element above the text, and one for every \<^verbatim>\<open>input\<close> element; an element that holds
  several texts is in it once for each. Over a whole call of \<^verbatim>\<open>test_page\<close>, with the
  pages it follows, no counter decreases, however the call ends.
\<close>

theorem counters_start_at_zero_and_grow:
  "correct (init u degree fol) c = 0 \<and> wrong (init u degree fol) c = 0
   \<and> (fst f \<longrightarrow> correct (record_finding k f s) = (correct s)(k := Suc (correct s k))
                \<and> wrong (record_finding k f s) = wrong s)
   \<and> (\<not> fst f \<longrightarrow> wrong (record_finding k f s) = (wrong s)(k := Suc (wrong s k))
                  \<and> correct (record_finding k f s) = correct s)
   \<and> (check_doc_language s = Inr s1 \<longrightarrow>
        tally_le s s1 \<and> judged s1 c = judged s c + (if c = doc_language then 1 else 0))
   \<and> tally_le s (check_alt_texts s)
   \<and> judged (check_alt_texts s) c
       = judged s c + (if c = alt_texts then length (find_all ''img'' (page s)) else 0)
   \<and> tally_le s (check_input_labels s)
   \<and> judged (check_input_labels s) c
       = judged s c + (if c = input_labels
                       then length (filter needs_label (find_all ''input'' (page s))) else 0)
   \<and> tally_le s (check_buttons s)
   \<and> judged (check_buttons s) c
       = judged s c + (if c = empty_buttons
                       then length (find_button_inputs (page s)) + length (find_all ''button'' (page s))
                       else 0)
   \<and> tally_le s (check_links s)
   \<and> judged (check_links s) c
       = judged s c + (if c = empty_links then length (find_all ''a'' (page s)) else 0)
   \<and> (check_color_contrast s = Inr s2 \<longrightarrow>
        tally_le s s2
        \<and> judged s2 c = judged s c
            + (if c = color_contrast
               then length (filter (has_verdict (driver s) (fst (extract_texts (page s))))
                              (elements_with_text (page s)))
               else 0))
   \<and> elements_with_text pg =
       map (\<lambda>(r, d). butlast r)
         (filter (\<lambda>(r, d). \<not> is_tag d \<and> strip (string_of d) \<noteq> [] \<and> string_of d \<noteq> [CHR 0x0A])
            (located (fst (extract_texts pg))))
       @ map fst (filter (\<lambda>(r, d). is_tag d \<and> name d = ''input'')
                    (located (fst (extract_texts pg))))
   \<and> (test_page w n s = (r, s3) \<longrightarrow> tally_le s s3)"
proof -
  have "fst f \<longrightarrow> correct (record_finding k f s) = (correct s)(k := Suc (correct s k))
                \<and> wrong (record_finding k f s) = wrong s"
    by (simp add: record_finding_def add_correct_def)
  moreover have "\<not> fst f \<longrightarrow> wrong (record_finding k f s) = (wrong s)(k := Suc (wrong s k))
                  \<and> correct (record_finding k f s) = correct s"
    by (simp add: record_finding_def add_wrong_def)
  moreover have "correct (init u degree fol) c = 0 \<and> wrong (init u degree fol) c = 0"
    by simp
  ultimately show ?thesis
    using tally_le_check_doc_language [of s s1] judged_check_doc_language [of s s1 c]
      tally_le_check_alt_texts [of s] judged_check_alt_texts [of s c]
      tally_le_check_input_labels [of s] judged_check_input_labels [of s c]
      tally_le_check_buttons [of s] judged_check_buttons [of s c]
      tally_le_check_links [of s] judged_check_links [of s c]
      tally_le_check_color_contrast [of s s2] judged_check_color_contrast [of s s2 c]
      tally_le_test_page [of w n s r s3] elements_with_text_nodes [of pg]
    by (intro conjI impI) (assumption | blast)+
qed

section \<open>Crawls over example webs\<close>

lemma web_fields [simp]:
  "get (web sites) = map_of sites"
  "urljoin (web sites) = absolute_urljoin"
  "hostname (web sites) = host_of"
  by (simp_all add: web_def)

lemma run_checks_site_with_link:
  "run_checks (tester_at (site_with_link a t))
     = Inr (checked_link_page t (tester_at (site_with_link a t)))"
  by (rule run_checks_page_with_link) (simp_all add: tester_at_def)

lemma checks_return_site_with_link: "checks_return (site_with_link a t)"
  by (simp add: checks_return_def run_checks_site_with_link)

lemma findings_site_with_link:
  "passes_on (site_with_link a t) c
     = (if c = doc_language \<or> c = empty_links \<or> c = color_contrast then 1 else 0)"
  "fails_on (site_with_link a t) c = 0"
  unfolding passes_on_def fails_on_def run_checks_site_with_link
  by (simp_all add: checked_link_page_def record_finding_correct record_finding_wrong
      tester_at_def)

lemma crawl_visited_audited:
  assumes "fst (crawl w n u degree True) = Returned"
  shows "visited_links (snd (crawl w n u degree True)) = audited (snd (crawl w n u degree True))"
proof (cases "get w u")
  case None
  with assms show ?thesis by (simp add: crawl_def start_driver_def)
next
  case (Some root)
  let ?s = "(init u degree True)\<lparr>windows := [root], current_window := 0, page := page_source root\<rparr>"
  obtain r s' where t: "test_page w n ?s = (r, s')" by (cases "test_page w n ?s")
  have c: "crawl w n u degree True = (r, s')"
    using Some t by (simp add: crawl_def start_driver_def)
  have "(r = Returned \<longrightarrow> in_step s') \<and> distinct (audited s') \<and> follow s'"
    by (rule once_test_page [OF t]) (simp_all add: in_step_def)
  with c assms show ?thesis by (simp add: in_step_def)
qed

lemma visited_link_passed_over:
  assumes "current_window s = origin" "urljoin w (url s) (href l) \<in> set (visited_links s)"
  shows "follow_links w n origin (l # ls) s = follow_links w n origin ls s"
  using assms by (simp add: Let_def)

text \<open>
  Claim C9, as stated, fails: a page is what the browser shows under an address, and the
  addresses are compared as they are, not in a canonical form. The page at
  \<^verbatim>\<open>http://a.test/\<close> links to itself with the fragment \<^verbatim>\<open>#top\<close>; the browser shows the
  same document under \<^verbatim>\<open>http://a.test/#top\<close>, and the crawl tests it a second time.
\<close>

theorem fragment_link_tested_twice:
  "page_source (site_with_link ''http://a.test/#top'' ''http://a.test/#top'')
     = page_source (site_with_link ''http://a.test/'' ''http://a.test/#top'')
   \<and> find_links (site_with_link ''http://a.test/'' ''http://a.test/#top'')
       = [\<lparr>is_displayed = True, href = Some ''http://a.test/#top''\<rparr>]
   \<and> fst (crawl fragment_web (Suc (Suc 0)) ''http://a.test/'' 1 True) = Returned
   \<and> audited (snd (crawl fragment_web (Suc (Suc 0)) ''http://a.test/'' 1 True))
       = [''http://a.test/'', ''http://a.test/#top'']
   \<and> correct (snd (crawl fragment_web (Suc (Suc 0)) ''http://a.test/'' 1 True)) doc_language = 2"
  by (simp add: crawl_def start_driver_def fragment_web_def host_of_def init_def
      run_checks_page_with_link driver_def Let_def absolute_urljoin_def
      open_window_def navigate_def switch_to_previous_def sublist_code
      checked_link_page_def record_finding_correct)

text \<open>
  Claim C9, amended. A page is identified by the address the browser reports for it. No
  crawl tests an address twice. On a web in which the browser reports finitely many
  addresses the crawl ends, by returning or by an exception, when the bound on the depth
  is at least the number of those addresses: the nested calls of \<^verbatim>\<open>test_page\<close> are never
  deeper than that. On a page that links only to itself the crawl returns for every depth
  bound of at least 1, has tested that page once, and the counters are the findings of
  the six checks on that page. On a cycle of two pages it returns for every depth bound
  of at least 2, has tested each of the two pages once, the first before the second, and
  the counters are the sums of the findings of the six checks on the two pages. Nothing
  is said of pages with links that lead to further pages of the host or to other hosts.

  The list of visited addresses is what makes this so: a link whose address resolves to
  a visited address is passed over, and no window is opened for it; and when a crawl that
  follows links returns, the visited addresses are the addresses of the pages it has
  tested, in the order of the tests.
\<close>

theorem cyclic_graphs_tested_once:
  "distinct (audited (snd (crawl w n u degree fol)))
   \<and> (finite S \<and> (\<forall>v st. get w v = Some st \<longrightarrow> current_url st \<in> S) \<and> card S \<le> n \<longrightarrow>
        fst (crawl w n u degree fol) \<noteq> Out_of_fuel)
   \<and> (self_linking w A \<and> 1 \<le> n \<longrightarrow>
        fst (crawl w n (current_url A) degree True) = Returned
        \<and> audited (snd (crawl w n (current_url A) degree True)) = [current_url A]
        \<and> correct (snd (crawl w n (current_url A) degree True)) c = passes_on A c
        \<and> wrong (snd (crawl w n (current_url A) degree True)) c = fails_on A c)
   \<and> (two_page_cycle w A B \<and> 2 \<le> n \<longrightarrow>
        fst (crawl w n (current_url A) degree True) = Returned
        \<and> audited (snd (crawl w n (current_url A) degree True)) = [current_url A, current_url B]
        \<and> correct (snd (crawl w n (current_url A) degree True)) c = passes_on A c + passes_on B c
        \<and> wrong (snd (crawl w n (current_url A) degree True)) c = fails_on A c + fails_on B c)
   \<and> (current_window s = origin \<and> urljoin w (url s) (href l) \<in> set (visited_links s) \<longrightarrow>
        follow_links w n origin (l # ls) s = follow_links w n origin ls s)
   \<and> (fst (crawl w n u degree True) = Returned \<longrightarrow>
        visited_links (snd (crawl w n u degree True)) = audited (snd (crawl w n u degree True)))"
proof (intro conjI impI)
  show "distinct (audited (snd (crawl w n u degree fol)))"
    by (rule crawl_audited_distinct)
next
  assume "finite S \<and> (\<forall>v st. get w v = Some st \<longrightarrow> current_url st \<in> S) \<and> card S \<le> n"
  then show "fst (crawl w n u degree fol) \<noteq> Out_of_fuel"
    using crawl_ends [of S w n u degree fol] by blast
next
  assume h: "self_linking w A \<and> 1 \<le> n"
  then obtain m where "n = Suc m" by (cases n) auto
  with h self_link_crawl [of w A m degree c]
  show "fst (crawl w n (current_url A) degree True) = Returned"
    "audited (snd (crawl w n (current_url A) degree True)) = [current_url A]"
    "correct (snd (crawl w n (current_url A) degree True)) c = passes_on A c"
    "wrong (snd (crawl w n (current_url A) degree True)) c = fails_on A c"
    by simp_all
next
  assume h: "two_page_cycle w A B \<and> 2 \<le> n"
  then obtain m where "n = Suc (Suc m)" by (cases n; cases "n - 1") auto
  with h two_page_crawl [of w A B m degree c]
  show "fst (crawl w n (current_url A) degree True) = Returned"
    "audited (snd (crawl w n (current_url A) degree True)) = [current_url A, current_url B]"
    "correct (snd (crawl w n (current_url A) degree True)) c = passes_on A c + passes_on B c"
    "wrong (snd (crawl w n (current_url A) degree True)) c = fails_on A c + fails_on B c"
    by simp_all
next
  assume "current_window s = origin \<and> urljoin w (url s) (href l) \<in> set (visited_links s)"
  then show "follow_links w n origin (l # ls) s = follow_links w n origin ls s"
    using visited_link_passed_over [of s origin w l n ls] by blast
next
  assume "fst (crawl w n u degree True) = Returned"
  then show "visited_links (snd (crawl w n u degree True)) = audited (snd (crawl w n u degree True))"
    by (rule crawl_visited_audited)
qed

theorem cyclic_graphs_tested_once_witness:
  "self_linking self_link_web (site_with_link ''http://a.test/'' ''http://a.test/'')
   \<and> two_page_cycle same_host_web (site_with_link ''http://a.test/'' ''http://a.test/b'')
        (site_with_link ''http://a.test/b'' ''http://a.test/'')
   \<and> fst (crawl self_link_web 1 ''http://a.test/'' 1 True) = Returned
   \<and> audited (snd (crawl self_link_web 1 ''http://a.test/'' 1 True)) = [''http://a.test/'']
   \<and> correct (snd (crawl self_link_web 1 ''http://a.test/'' 1 True)) empty_links = 1
   \<and> wrong (snd (crawl self_link_web 1 ''http://a.test/'' 1 True)) empty_links = 0
   \<and> finite {''http://a.test/'', ''http://a.test/b''}
   \<and> card {''http://a.test/'', ''http://a.test/b''} \<le> (2::nat)
   \<and> fst (crawl same_host_web 2 ''http://a.test/'' 1 True) = Returned
   \<and> audited (snd (crawl same_host_web 2 ''http://a.test/'' 1 True))
       = [''http://a.test/'', ''http://a.test/b'']
   \<and> correct (snd (crawl same_host_web 2 ''http://a.test/'' 1 True)) empty_links = 2
   \<and> wrong (snd (crawl same_host_web 2 ''http://a.test/'' 1 True)) empty_links = 0
   \<and> visited_links (snd (crawl same_host_web 2 ''http://a.test/'' 1 True))
       = [''http://a.test/'', ''http://a.test/b'']
   \<and> current_window (started\<lparr>visited_links := [''http://a.test/b'']\<rparr>) = 0
   \<and> urljoin same_host_web (url (started\<lparr>visited_links := [''http://a.test/b'']\<rparr>))
         (href \<lparr>is_displayed = True, href = Some ''http://a.test/b''\<rparr>)
       \<in> set (visited_links (started\<lparr>visited_links := [''http://a.test/b'']\<rparr>))
   \<and> follow_links same_host_web 1 0 [\<lparr>is_displayed = True, href = Some ''http://a.test/b''\<rparr>]
         (started\<lparr>visited_links := [''http://a.test/b'']\<rparr>)
       = (Returned, started\<lparr>visited_links := [''http://a.test/b'']\<rparr>)"
proof -
  let ?a = "''http://a.test/''"
  let ?b = "''http://a.test/b''"
  have s: "self_linking self_link_web (site_with_link ?a ?a)"
    by (simp add: self_linking_def self_link_web_def followed_def
        checks_return_site_with_link absolute_urljoin_def)
  have t: "two_page_cycle same_host_web (site_with_link ?a ?b) (site_with_link ?b ?a)"
    by (simp add: two_page_cycle_def same_host_web_def followed_def leads_to_def on_host_def
        host_of_def checks_return_site_with_link absolute_urljoin_def sublist_code)
  have c: "\<forall>v st. get same_host_web v = Some st \<longrightarrow> current_url st \<in> {?a, ?b}"
    by (auto simp: same_host_web_def split: if_splits)
  have f: "finite {?a, ?b}" "card {?a, ?b} \<le> (2::nat)" by simp_all
  let ?s = "started\<lparr>visited_links := [?b]\<rparr>"
  let ?l = "\<lparr>is_displayed = True, href = Some ?b\<rparr>"
  have v: "current_window ?s = 0" "urljoin same_host_web (url ?s) (href ?l) \<in> set (visited_links ?s)"
    by (simp_all add: same_host_web_def absolute_urljoin_def started_def)
  from s t c f v show ?thesis
    using cyclic_graphs_tested_once [of self_link_web 1 ?a 1 True "{?a, ?b}"
        "site_with_link ?a ?a" empty_links "site_with_link ?b ?a"]
      cyclic_graphs_tested_once [of same_host_web 2 ?a 1 True "{?a, ?b}"
        "site_with_link ?a ?b" empty_links "site_with_link ?b ?a"]
      cyclic_graphs_tested_once [where w = same_host_web and n = 1 and s = ?s and origin = 0
        and l = ?l and ls = "[]"]
    by (simp add: findings_site_with_link)
qed

text \<open>
  Claim C3 fails on the code. On a page whose only button holds a comment,
  \<^verbatim>\<open>check_color_contrast\<close> takes the comment out of the page of the tester
  (\<^verbatim>\<open>extract_texts\<close> works on the page itself, not on a copy). \<^verbatim>\<open>check_buttons\<close>
  records the button as correct on the page as parsed and as wrong on the page the colour
  check leaves, so the counters depend on the order of the two checks.
\<close>

theorem color_contrast_check_strips_page:
  "check_color_contrast (tester_on comment_button_page)
     = Inr ((tester_on comment_button_page)\<lparr>page := document [Tag ''button'' Map.empty []]\<rparr>)
   \<and> correct (check_buttons (tester_on comment_button_page)) empty_buttons = 1
   \<and> wrong (check_buttons (tester_on comment_button_page)) empty_buttons = 0
   \<and> correct (check_buttons
        ((tester_on comment_button_page)\<lparr>page := document [Tag ''button'' Map.empty []]\<rparr>))
        empty_buttons = 0
   \<and> wrong (check_buttons
        ((tester_on comment_button_page)\<lparr>page := document [Tag ''button'' Map.empty []]\<rparr>))
        empty_buttons = 1"
proof -
  have "check_color_contrast (tester_on comment_button_page)
     = Inr ((tester_on comment_button_page)\<lparr>page := document [Tag ''button'' Map.empty []]\<rparr>)"
    by (simp add: check_color_contrast_def extract_texts_def comment_button_page_def document_def
        tester_on_def invisible_element_def Let_def)
  moreover have "correct (check_buttons (tester_on comment_button_page)) empty_buttons = 1"
    "wrong (check_buttons (tester_on comment_button_page)) empty_buttons = 0"
    by (simp_all add: check_buttons_def find_button_inputs_def find_all_def document_def
        comment_button_page_def tester_on_def button_verdict_def find_texts_def descendants_def
        record_finding_def add_correct_def add_wrong_def Let_def)
  moreover have "correct (check_buttons
        ((tester_on comment_button_page)\<lparr>page := document [Tag ''button'' Map.empty []]\<rparr>))
        empty_buttons = 0"
     "wrong (check_buttons
        ((tester_on comment_button_page)\<lparr>page := document [Tag ''button'' Map.empty []]\<rparr>))
        empty_buttons = 1"
    by (simp_all add: check_buttons_def find_button_inputs_def find_all_def document_def
        tester_on_def button_verdict_def find_texts_def descendants_def
        record_finding_def add_correct_def add_wrong_def Let_def)
  ultimately show ?thesis by simp
qed

lemma started_fields [simp]:
  "page started = page_with_link ''http://b.test/''"
  "windows started = [site_with_link ''http://a.test/'' ''http://b.test/'']"
  "current_window started = 0"
  "follow started = False"
  "audited started = []"
  "correct started c = 0"
  "wrong started c = 0"
  by (simp_all add: started_def)

lemma doc_language_started:
  "check_doc_language started
     = Inr (record_finding doc_language (True, ''Document language is set'') started)"
  by (simp add: check_doc_language_def find_first_def find_all_def descendants_def
      page_with_link_def document_def doc_language_verdict_def)

lemma color_contrast_started:
  "check_color_contrast started
     = Inr (record_finding color_contrast (True, ''Contrast meets minimum requirements'')
              (started\<lparr>page := page_with_link ''http://b.test/''\<rparr>))"
  by (simp add: check_color_contrast_def extract_texts_def invisible_element_def strip_def
      isspace_def contrast_verdict_def site_with_link_def transparent_style_def alpha_def Let_def
      xpath_soup_def large_text_def int_of_digits_def isdigit_def get_contrast_ratio_def
      luminance_def red_def green_def blue_def convert_zero convert_255 sublist_code(3)
      page_with_link_def document_def find_children_def driver_def)

lemma test_page_started:
  "test_page cross_origin_web (Suc 0) started
     = (Returned, checked_link_page ''http://b.test/''
          (started\<lparr>page := page_with_link ''http://b.test/'', audited := [''http://a.test/'']\<rparr>))"
  by (simp add: run_checks_page_with_link driver_def Let_def)

theorem counters_start_at_zero_and_grow_witness:
  "fst (True, ''Document language is set'')
   \<and> check_doc_language started
       = Inr (record_finding doc_language (True, ''Document language is set'') started)
   \<and> correct (record_finding doc_language (True, ''Document language is set'') started) doc_language = 1
   \<and> wrong (record_finding doc_language (True, ''Document language is set'') started) doc_language = 0
   \<and> judged (record_finding color_contrast (True, ''Contrast meets minimum requirements'')
              (started\<lparr>page := page_with_link ''http://b.test/''\<rparr>)) color_contrast = 1
   \<and> tally_le started
        (checked_link_page ''http://b.test/''
          (started\<lparr>page := page_with_link ''http://b.test/'', audited := [''http://a.test/'']\<rparr>))"
  using counters_start_at_zero_and_grow
    [of "''http://a.test/''" 1 False doc_language "(True, ''Document language is set'')"
      doc_language started
      "record_finding doc_language (True, ''Document language is set'') started"
      "record_finding color_contrast (True, ''Contrast meets minimum requirements'')
              (started\<lparr>page := page_with_link ''http://b.test/''\<rparr>)"
      "document [mixed_paragraph]" cross_origin_web "Suc 0" Returned
      "checked_link_page ''http://b.test/''
          (started\<lparr>page := page_with_link ''http://b.test/'', audited := [''http://a.test/'']\<rparr>)"]
    doc_language_started color_contrast_started test_page_started
  by (simp add: judged_def record_finding_correct record_finding_wrong)

end
